theory Spec2Isabelle
  imports Main "HOL-Library.Word"
begin

section \<open>Machine types of the PICO manager\<close>

text \<open>
  The library is C for 64-bit Windows. \<open>DWORD\<close> is an unsigned 32-bit integer and
  \<open>SIZE_T\<close> an unsigned 64-bit integer; both wrap around. The \<open>int\<close> returned by
  \<open>PicoCodeSize\<close> and \<open>PicoDataSize\<close> is a signed 32-bit integer which the
  assignment to a \<open>SIZE_T\<close> field sign-extends (\<open>scast\<close>).

  A \<open>char*\<close> is a 64-bit address, with \<open>NULL\<close> the address 0. Pointer arithmetic
  \<open>base + offset\<close> adds the offset to the address and wraps around at \<open>2^64\<close>, as
  the machine does.
\<close>

type_synonym DWORD = "32 word"
type_synonym SIZE_T = "64 word"
type_synonym ptr = "64 word"

definition NULL :: ptr where
  "NULL = 0"

definition NUL :: char where
  "NUL = CHR 0x00"

definition PICO_NAME_MAX_LENGTH :: nat where
  "PICO_NAME_MAX_LENGTH = 32"

text \<open>\<open>(DWORD)-1\<close>, the boundary that asks \<open>LoadPico\<close> for every entry.\<close>

definition ALL_ENTRIES :: DWORD where
  "ALL_ENTRIES = - 1"

section \<open>Data model (PicoManager.h)\<close>

record PICO_ENTRY =
  pico_id :: DWORD
  name :: string
  code :: ptr
  codeSize :: SIZE_T
  data :: ptr
  dataSize :: SIZE_T
  entryPoint :: ptr
  vault :: ptr

text \<open>
  The field \<open>entries\<close> of the manager points to an array that the caller owns. The model
  holds the contents of that array as a list; the slot \<open>entries[i]\<close> exists when
  \<open>i\<close> is below the length of the list.
\<close>

record PICO_MANAGER =
  baseAddress :: ptr
  blockSize :: SIZE_T
  usedSize :: SIZE_T
  entries :: "PICO_ENTRY list"
  entryCount :: DWORD
  entryCapacity :: DWORD
  interPicoPadding :: SIZE_T

text \<open>
  Every C function here returns \<open>BOOL\<close>. The model keeps the value and, for
  \<open>FALSE\<close>, the reason of the \<open>return FALSE\<close> statement that produced it.
\<close>

datatype error =
  InvalidArgument | CapacityExceeded | NotFound | AllocationFailed | InsufficientSpace
  | NotAllocated

datatype BOOL = TRUE | FALSE error

text \<open>The slot \<open>entries[i]\<close>; \<open>None\<close> when the access is outside the array.\<close>

definition slot :: "PICO_ENTRY list \<Rightarrow> nat \<Rightarrow> PICO_ENTRY option" where
  "slot es i = (if i < length es then Some (es ! i) else None)"

text \<open>What \<open>memset(&entry, 0, sizeof(PICO_ENTRY))\<close> leaves in a slot.\<close>

definition zero_entry :: PICO_ENTRY where
  "zero_entry =
     \<lparr>pico_id = 0, name = replicate PICO_NAME_MAX_LENGTH NUL, code = NULL, codeSize = 0,
      data = NULL, dataSize = 0, entryPoint = NULL, vault = NULL\<rparr>"

section \<open>The collaborators: C runtime, memory primitive, relocator\<close>

subsection \<open>C strings\<close>

text \<open>
  A string argument is the list of the bytes at the pointer. The first \<open>NUL\<close> ends the
  string; where the list has none, its end does (bytes past the end read as \<open>NUL\<close>).
\<close>

definition byte_at :: "string \<Rightarrow> nat \<Rightarrow> char" where
  "byte_at s i = (if i < length s then s ! i else NUL)"

definition cstr :: "string \<Rightarrow> string" where
  "cstr s = takeWhile (\<lambda>c. c \<noteq> NUL) s"

definition strlen :: "string \<Rightarrow> nat" where
  "strlen s = length (cstr s)"

text \<open>
  \<open>strncmp\<close> compares at most \<open>n\<close> bytes and stops after a common \<open>NUL\<close>; the result
  is the difference of the first two bytes that differ.
\<close>

fun strncmp :: "string \<Rightarrow> string \<Rightarrow> nat \<Rightarrow> int" where
  "strncmp s1 s2 0 = 0"
| "strncmp s1 s2 (Suc n) =
     (if byte_at s1 0 \<noteq> byte_at s2 0
      then int (of_char (byte_at s1 0)) - int (of_char (byte_at s2 0))
      else if byte_at s1 0 = NUL then 0
      else strncmp (tl s1) (tl s2) n)"

text \<open>
  \<open>strncpy\<close> writes exactly \<open>n\<close> bytes: the bytes of the source string, then \<open>NUL\<close>
  padding; the rest of the destination stays.
\<close>

definition strncpy :: "string \<Rightarrow> string \<Rightarrow> nat \<Rightarrow> string" where
  "strncpy dest src n = take n (cstr src @ replicate n NUL) @ drop n dest"

subsection \<open>VirtualAlloc and VirtualFree\<close>

text \<open>
  The operating system is outside the library. The world holds the answers that the
  coming \<open>VirtualAlloc\<close> calls will get (\<open>NULL\<close> for a refusal, and no answer left is
  a refusal too), the regions that are reserved and not released, and the log of the
  \<open>PicoLoad\<close> calls (import table, source, code destination, data destination).
\<close>

datatype protection = PAGE_EXECUTE_READWRITE | PAGE_READWRITE

record world =
  alloc_results :: "ptr list"
  live :: "(ptr \<times> SIZE_T \<times> protection) list"
  pico_loads :: "(ptr \<times> ptr \<times> ptr \<times> ptr) list"

definition VirtualAlloc :: "world \<Rightarrow> SIZE_T \<Rightarrow> protection \<Rightarrow> ptr \<times> world" where
  "VirtualAlloc w dwSize flProtect =
     (case alloc_results w of
        [] \<Rightarrow> (NULL, w)
      | p # ps \<Rightarrow>
          (p, w\<lparr>alloc_results := ps,
                live := (if p = NULL then live w else (p, dwSize, flProtect) # live w)\<rparr>))"

definition VirtualFree :: "world \<Rightarrow> ptr \<Rightarrow> world" where
  "VirtualFree w lpAddress = w\<lparr>live := filter (\<lambda>r. fst r \<noteq> lpAddress) (live w)\<rparr>"

definition is_live :: "world \<Rightarrow> ptr \<Rightarrow> bool" where
  "is_live w p = (p \<in> fst ` set (live w))"

subsection \<open>The relocator (LibTcg)\<close>

text \<open>
  \<open>PicoCodeSize\<close>, \<open>PicoDataSize\<close> and \<open>PicoEntryPoint\<close> are declared in the header
  and defined elsewhere: they are parameters of the model. \<open>PicoLoad\<close> writes into the
  two destinations; the model records the call.
\<close>

record libtcg =
  PicoCodeSize :: "ptr \<Rightarrow> 32 word"
  PicoDataSize :: "ptr \<Rightarrow> 32 word"
  PicoEntryPoint :: "ptr \<Rightarrow> ptr \<Rightarrow> ptr"

definition PicoLoad :: "world \<Rightarrow> ptr \<Rightarrow> ptr \<Rightarrow> ptr \<Rightarrow> ptr \<Rightarrow> world" where
  "PicoLoad w funcs src dstCode dstData =
     w\<lparr>pico_loads := pico_loads w @ [(funcs, src, dstCode, dstData)]\<rparr>"

section \<open>The manager (PicoManager.c)\<close>

text \<open>
  A pointer to a manager is \<open>None\<close> when it is \<open>NULL\<close> and \<open>Some m\<close> when it points to
  the manager \<open>m\<close>; a function returns the manager it leaves behind the pointer. The
  outer \<open>option\<close> of a result is \<open>None\<close> when the function reads or writes a slot
  outside the array of entries, which C leaves undefined.
\<close>

subsection \<open>Initialisation and registration\<close>

definition PicoManagerInit ::
  "PICO_MANAGER option \<Rightarrow> PICO_ENTRY list \<Rightarrow> DWORD \<Rightarrow> PICO_MANAGER option" where
  "PicoManagerInit manager entries' entryCapacity' =
     (case manager of
        None \<Rightarrow> None
      | Some m \<Rightarrow>
          Some (m\<lparr>baseAddress := NULL, blockSize := 0, usedSize := 0, entries := entries',
                  entryCount := 0, entryCapacity := entryCapacity',
                  interPicoPadding := 0\<rparr>))"

definition AddPico ::
  "libtcg \<Rightarrow> PICO_MANAGER option \<Rightarrow> string option \<Rightarrow> ptr
     \<Rightarrow> (BOOL \<times> PICO_MANAGER option) option" where
  "AddPico L manager name' vault' =
     (case manager of
        None \<Rightarrow> Some (FALSE InvalidArgument, None)
      | Some m \<Rightarrow>
          if vault' = NULL \<or> name' = None then Some (FALSE InvalidArgument, Some m)
          else if entryCount m \<ge> entryCapacity m then Some (FALSE CapacityExceeded, Some m)
          else
            (case slot (entries m) (unat (entryCount m)) of
               None \<Rightarrow> None
             | Some entry \<Rightarrow>
                 let entry' = entry
                       \<lparr>pico_id := entryCount m,
                        name := (strncpy (name entry) (the name') (PICO_NAME_MAX_LENGTH - 1))
                                  [PICO_NAME_MAX_LENGTH - 1 := NUL],
                        code := NULL,
                        codeSize := scast (PicoCodeSize L vault'),
                        data := NULL,
                        dataSize := scast (PicoDataSize L vault'),
                        entryPoint := NULL,
                        vault := vault'\<rparr>
                 in Some (TRUE,
                      Some (m\<lparr>entries := (entries m)[unat (entryCount m) := entry'],
                              entryCount := entryCount m + 1\<rparr>))))"

subsection \<open>Lookup\<close>

text \<open>A pointer to an entry is the position of the entry in the array.\<close>

definition GetPicoById :: "PICO_MANAGER option \<Rightarrow> DWORD \<Rightarrow> nat option" where
  "GetPicoById manager id' =
     (case manager of
        None \<Rightarrow> None
      | Some m \<Rightarrow> if id' \<ge> entryCount m then None else Some (unat id'))"

function name_loop :: "PICO_MANAGER \<Rightarrow> string \<Rightarrow> nat \<Rightarrow> nat \<Rightarrow> nat option option" where
  "name_loop m nm nameLen i =
     (if i < unat (entryCount m) then
        (case slot (entries m) i of
           None \<Rightarrow> None
         | Some e \<Rightarrow>
             if strncmp (name e) nm nameLen = 0 \<and> byte_at (name e) nameLen = NUL
             then Some (Some i)
             else name_loop m nm nameLen (Suc i))
      else Some None)"
  by pat_completeness auto
termination
  by (relation "measure (\<lambda>(m, nm, nameLen, i). unat (entryCount m) - i)") auto

definition GetPicoByName :: "PICO_MANAGER option \<Rightarrow> string option \<Rightarrow> nat option option" where
  "GetPicoByName manager name' =
     (case manager of
        None \<Rightarrow> Some None
      | Some m \<Rightarrow>
          (case name' of
             None \<Rightarrow> Some None
           | Some nm \<Rightarrow>
               let nameLen = strlen nm;
                   nameLen = (if nameLen \<ge> PICO_NAME_MAX_LENGTH
                              then PICO_NAME_MAX_LENGTH - 1 else nameLen)
               in name_loop m nm nameLen 0))"

subsection \<open>Removal\<close>

function shift_loop :: "PICO_MANAGER \<Rightarrow> nat \<Rightarrow> PICO_MANAGER option" where
  "shift_loop m i =
     (if i < unat (entryCount m - 1) then
        (case slot (entries m) (Suc i) of
           None \<Rightarrow> None
         | Some e \<Rightarrow>
             shift_loop (m\<lparr>entries := (entries m)[i := e\<lparr>pico_id := of_nat i\<rparr>]\<rparr>) (Suc i))
      else Some m)"
  by pat_completeness auto
termination
  by (relation "measure (\<lambda>(m, i). unat (entryCount m - 1) - i)") auto

definition RemovePicoById ::
  "PICO_MANAGER option \<Rightarrow> DWORD \<Rightarrow> world \<Rightarrow> (BOOL \<times> PICO_MANAGER option \<times> world) option" where
  "RemovePicoById manager id' w =
     (case manager of
        None \<Rightarrow> Some (FALSE InvalidArgument, None, w)
      | Some m \<Rightarrow>
          if id' \<ge> entryCount m then Some (FALSE NotFound, Some m, w)
          else
            (case slot (entries m) (unat id') of
               None \<Rightarrow> None
             | Some entry \<Rightarrow>
                 let (m1, w1) =
                       (if data entry \<noteq> NULL
                        then (m\<lparr>entries := (entries m)[unat id' := entry\<lparr>data := NULL\<rparr>]\<rparr>,
                              VirtualFree w (data entry))
                        else (m, w))
                 in (case shift_loop m1 (unat id') of
                       None \<Rightarrow> None
                     | Some m2 \<Rightarrow>
                         if unat (entryCount m2 - 1) < length (entries m2)
                         then Some (TRUE,
                                Some (m2\<lparr>entries :=
                                           (entries m2)[unat (entryCount m2 - 1) := zero_entry],
                                         entryCount := entryCount m2 - 1\<rparr>),
                                w1)
                         else None)))"

definition RemovePicoByName ::
  "PICO_MANAGER option \<Rightarrow> string option \<Rightarrow> world
     \<Rightarrow> (BOOL \<times> PICO_MANAGER option \<times> world) option" where
  "RemovePicoByName manager name' w =
     (case manager of
        None \<Rightarrow> Some (FALSE InvalidArgument, None, w)
      | Some m \<Rightarrow>
          if name' = None then Some (FALSE InvalidArgument, Some m, w)
          else
            (case GetPicoByName manager name' of
               None \<Rightarrow> None
             | Some None \<Rightarrow> Some (FALSE NotFound, Some m, w)
             | Some (Some entry) \<Rightarrow> RemovePicoById manager (of_nat entry) w))"

subsection \<open>Sizing, allocation and loading\<close>

function total_loop :: "PICO_MANAGER \<Rightarrow> nat \<Rightarrow> SIZE_T \<Rightarrow> SIZE_T option" where
  "total_loop m i totalSize =
     (if i < unat (entryCount m) then
        (case slot (entries m) i of
           None \<Rightarrow> None
         | Some entry \<Rightarrow>
             if vault entry = NULL then total_loop m (Suc i) totalSize
             else
               let totalSize1 = totalSize + codeSize entry;
                   totalSize2 = (if (of_nat i :: DWORD) < entryCount m - 1
                                 then totalSize1 + interPicoPadding m else totalSize1)
               in total_loop m (Suc i) totalSize2)
      else Some totalSize)"
  by pat_completeness auto
termination
  by (relation "measure (\<lambda>(m, i, totalSize). unat (entryCount m) - i)") auto

definition TotalCodeSize :: "PICO_MANAGER option \<Rightarrow> SIZE_T option" where
  "TotalCodeSize manager =
     (case manager of
        None \<Rightarrow> Some 0
      | Some m \<Rightarrow> total_loop m 0 0)"

definition PicoManagerAlloc ::
  "PICO_MANAGER option \<Rightarrow> SIZE_T \<Rightarrow> world \<Rightarrow> (BOOL \<times> PICO_MANAGER option \<times> world) option" where
  "PicoManagerAlloc manager finalPadding w =
     (case manager of
        None \<Rightarrow> Some (FALSE InvalidArgument, None, w)
      | Some m \<Rightarrow>
          (case TotalCodeSize manager of
             None \<Rightarrow> None
           | Some totalCodeSize \<Rightarrow>
               let paddingSize = (if entryCount m > 0
                                  then interPicoPadding m * ucast (entryCount m - 1) else 0);
                   requiredBlockSize = totalCodeSize + paddingSize + finalPadding
               in (case VirtualAlloc w requiredBlockSize PAGE_EXECUTE_READWRITE of
                     (p, w1) \<Rightarrow>
                       if p = NULL
                       then Some (FALSE AllocationFailed, Some (m\<lparr>baseAddress := p\<rparr>), w1)
                       else Some (TRUE,
                              Some (m\<lparr>baseAddress := p, blockSize := requiredBlockSize,
                                      usedSize := 0\<rparr>),
                              w1))))"

text \<open>
  The loop of \<open>LoadPico\<close>, from position \<open>i\<close> with the running \<open>codeOffset\<close>. It
  returns the offset too, since \<open>LoadPico\<close> stores it after the loop.
\<close>

function load_loop ::
  "libtcg \<Rightarrow> ptr \<Rightarrow> SIZE_T \<Rightarrow> DWORD \<Rightarrow> nat \<Rightarrow> SIZE_T \<Rightarrow> PICO_MANAGER \<Rightarrow> world
     \<Rightarrow> (BOOL \<times> SIZE_T \<times> PICO_MANAGER \<times> world) option" where
  "load_loop L funcs finalPadding loadUpTo i codeOffset m w =
     (if i < unat loadUpTo \<and> i < unat (entryCount m) then
        (case slot (entries m) i of
           None \<Rightarrow> None
         | Some entry \<Rightarrow>
             if code entry \<noteq> NULL then
               load_loop L funcs finalPadding loadUpTo (Suc i)
                 (codeOffset + (codeSize entry + interPicoPadding m)) m w
             else if vault entry = NULL then
               load_loop L funcs finalPadding loadUpTo (Suc i) codeOffset m w
             else if codeOffset + (codeSize entry + interPicoPadding m) + finalPadding
                       > blockSize m then
               Some (FALSE InsufficientSpace, codeOffset, m, w)
             else
               (case VirtualAlloc w (dataSize entry) PAGE_READWRITE of
                  (p, w1) \<Rightarrow>
                    if p = NULL then
                      Some (FALSE AllocationFailed, codeOffset,
                        m\<lparr>entries := (entries m)
                             [i := entry\<lparr>code := baseAddress m + codeOffset,
                                         data := p\<rparr>]\<rparr>,
                        w1)
                    else
                      load_loop L funcs finalPadding loadUpTo (Suc i)
                        (codeOffset + (codeSize entry + interPicoPadding m))
                        (m\<lparr>entries := (entries m)
                              [i := entry\<lparr>code := baseAddress m + codeOffset,
                                          data := p,
                                          entryPoint := PicoEntryPoint L (vault entry)
                                            (baseAddress m + codeOffset)\<rparr>]\<rparr>)
                        (PicoLoad w1 funcs (vault entry)
                           (baseAddress m + codeOffset) p)))
      else Some (TRUE, codeOffset, m, w))"
  by pat_completeness auto
termination
  by (relation "measure (\<lambda>(L, funcs, finalPadding, loadUpTo, i, codeOffset, m, w).
        unat (entryCount m) - i)") auto

definition LoadPico ::
  "libtcg \<Rightarrow> PICO_MANAGER option \<Rightarrow> DWORD \<Rightarrow> SIZE_T \<Rightarrow> ptr \<Rightarrow> world
     \<Rightarrow> (BOOL \<times> PICO_MANAGER option \<times> world) option" where
  "LoadPico L manager upToEntryId finalPadding funcs w =
     (case manager of
        None \<Rightarrow> Some (FALSE InvalidArgument, None, w)
      | Some m \<Rightarrow>
          if baseAddress m = NULL \<or> blockSize m = 0 then Some (FALSE NotAllocated, Some m, w)
          else
            let loadUpTo = (if upToEntryId = ALL_ENTRIES then entryCount m
                            else upToEntryId + 1)
            in (case load_loop L funcs finalPadding loadUpTo 0 0 m w of
                  None \<Rightarrow> None
                | Some (TRUE, codeOffset, m', w') \<Rightarrow>
                    Some (TRUE, Some (m'\<lparr>usedSize := codeOffset\<rparr>), w')
                | Some (FALSE e, codeOffset, m', w') \<Rightarrow> Some (FALSE e, Some m', w')))"

subsection \<open>Duplication and teardown\<close>

text \<open>
  The loop of \<open>DuplicateManager\<close> over the entries of the source manager \<open>m\<close>,
  registering into the new manager \<open>n\<close>. The two managers and their arrays are
  distinct objects.
\<close>

function dup_loop ::
  "libtcg \<Rightarrow> PICO_MANAGER \<Rightarrow> nat \<Rightarrow> PICO_MANAGER \<Rightarrow> (BOOL \<times> PICO_MANAGER) option" where
  "dup_loop L m i n =
     (if i < unat (entryCount m) then
        (case slot (entries m) i of
           None \<Rightarrow> None
         | Some e \<Rightarrow>
             if vault e \<noteq> NULL then
               (case AddPico L (Some n) (Some (name e)) (vault e) of
                  Some (TRUE, Some n') \<Rightarrow> dup_loop L m (Suc i) n'
                | Some (FALSE err, Some n') \<Rightarrow> Some (FALSE err, n')
                | _ \<Rightarrow> None)
             else dup_loop L m (Suc i) n)
      else Some (TRUE, n))"
  by pat_completeness auto
termination
  by (relation "measure (\<lambda>(L, m, i, n). unat (entryCount m) - i)") auto

text \<open>
  \<open>picoBlock\<close> is an output parameter: \<open>None\<close> for a \<open>NULL\<close> pointer, otherwise the
  value it points to; the result holds the value it points to afterwards.
\<close>

definition DuplicateManager ::
  "libtcg \<Rightarrow> PICO_MANAGER option \<Rightarrow> PICO_MANAGER option \<Rightarrow> PICO_ENTRY list option \<Rightarrow> DWORD
     \<Rightarrow> ptr option \<Rightarrow> world
     \<Rightarrow> (BOOL \<times> PICO_MANAGER option \<times> ptr option \<times> world) option" where
  "DuplicateManager L manager newManager entries' entryCapacity' picoBlock w =
     (case (manager, newManager, entries', picoBlock) of
        (Some m, Some nm, Some es, Some pb) \<Rightarrow>
          (case PicoManagerInit newManager es entryCapacity' of
             None \<Rightarrow> None
           | Some n0 \<Rightarrow>
               (case dup_loop L m 0 (n0\<lparr>interPicoPadding := interPicoPadding m\<rparr>) of
                  None \<Rightarrow> None
                | Some (FALSE err, n1) \<Rightarrow> Some (FALSE err, Some n1, picoBlock, w)
                | Some (TRUE, n1) \<Rightarrow>
                    (case PicoManagerAlloc (Some n1)
                            (ucast (entryCount m) * interPicoPadding m) w of
                       None \<Rightarrow> None
                     | Some (FALSE err, n2, w1) \<Rightarrow> Some (FALSE err, n2, picoBlock, w1)
                     | Some (TRUE, n2, w1) \<Rightarrow>
                         Some (TRUE, n2, map_option baseAddress n2, w1))))
      | _ \<Rightarrow> Some (FALSE InvalidArgument, newManager, picoBlock, w))"

definition DestroyManager ::
  "PICO_MANAGER option \<Rightarrow> ptr \<Rightarrow> world \<Rightarrow> BOOL \<times> PICO_MANAGER option \<times> world" where
  "DestroyManager manager picoBlock w =
     (case manager of
        None \<Rightarrow> (FALSE InvalidArgument, None, w)
      | Some m \<Rightarrow>
          (TRUE,
           Some (m\<lparr>baseAddress := NULL, blockSize := 0, usedSize := 0, entryCount := 0\<rparr>),
           if picoBlock \<noteq> NULL then VirtualFree w picoBlock else w))"

section \<open>Sequences of catalog operations\<close>

text \<open>
  A caller's sequence of registrations and removals on one manager. Each step returns the
  \<open>BOOL\<close> of the call; the run is \<open>None\<close> when a call leaves the array.
\<close>

datatype op = Register "string option" ptr | RemoveById DWORD | RemoveByName "string option"

fun is_Register :: "op \<Rightarrow> bool" where
  "is_Register (Register nm v) = True"
| "is_Register (RemoveById i) = False"
| "is_Register (RemoveByName nm) = False"

fun apply_op :: "libtcg \<Rightarrow> op \<Rightarrow> PICO_MANAGER \<Rightarrow> world \<Rightarrow> (BOOL \<times> PICO_MANAGER \<times> world) option" where
  "apply_op L (Register nm v) m w =
     (case AddPico L (Some m) nm v of Some (r, Some m') \<Rightarrow> Some (r, m', w) | _ \<Rightarrow> None)"
| "apply_op L (RemoveById i) m w =
     (case RemovePicoById (Some m) i w of
        Some (r, Some m', w') \<Rightarrow> Some (r, m', w') | _ \<Rightarrow> None)"
| "apply_op L (RemoveByName nm) m w =
     (case RemovePicoByName (Some m) nm w of
        Some (r, Some m', w') \<Rightarrow> Some (r, m', w') | _ \<Rightarrow> None)"

fun run_ops ::
  "libtcg \<Rightarrow> op list \<Rightarrow> PICO_MANAGER \<Rightarrow> world \<Rightarrow> (BOOL list \<times> PICO_MANAGER \<times> world) option" where
  "run_ops L [] m w = Some ([], m, w)"
| "run_ops L (x # xs) m w =
     (case apply_op L x m w of
        None \<Rightarrow> None
      | Some (r, m', w') \<Rightarrow>
          (case run_ops L xs m' w' of
             None \<Rightarrow> None
           | Some (rs, m'', w'') \<Rightarrow> Some (r # rs, m'', w'')))"

text \<open>The invariant of the catalog: the count is within the capacity and the array, and
  every occupied position holds its own index as \<open>id\<close>.\<close>

definition catalog_ok :: "PICO_MANAGER \<Rightarrow> bool" where
  "catalog_ok m =
     (entryCount m \<le> entryCapacity m \<and> unat (entryCapacity m) \<le> length (entries m)
      \<and> list_all (\<lambda>i. pico_id (entries m ! i) = of_nat i) [0 ..< unat (entryCount m)])"

section \<open>Notions for duplication\<close>

text \<open>The entries of the catalog that have a vault, in their order.\<close>

definition live_entries :: "PICO_MANAGER \<Rightarrow> PICO_ENTRY list" where
  "live_entries m =
     filter (\<lambda>e. vault e \<noteq> NULL) (take (unat (entryCount m)) (entries m))"

text \<open>
  \<open>registered_from L src j e\<close>: the entry \<open>e\<close> is what registering the name and the
  vault of \<open>src\<close> at the position \<open>j\<close> leaves, unplaced.
\<close>

definition registered_from :: "libtcg \<Rightarrow> PICO_ENTRY \<Rightarrow> nat \<Rightarrow> PICO_ENTRY \<Rightarrow> bool" where
  "registered_from L src j e =
     (pico_id e = of_nat j
      \<and> cstr (name e) = take (PICO_NAME_MAX_LENGTH - 1) (cstr (name src))
      \<and> code e = NULL \<and> codeSize e = scast (PicoCodeSize L (vault src))
      \<and> data e = NULL \<and> dataSize e = scast (PicoDataSize L (vault src))
      \<and> entryPoint e = NULL \<and> vault e = vault src)"

section \<open>Example states\<close>

text \<open>A relocator for three modules, at the addresses 1000, 2000 and 3000, with code
  sizes 100, 200 and 50.\<close>

definition example_libtcg :: libtcg where
  "example_libtcg =
     \<lparr>PicoCodeSize = (\<lambda>v. if v = 1000 then 100 else if v = 2000 then 200 else 50),
      PicoDataSize = (\<lambda>v. 8),
      PicoEntryPoint = (\<lambda>v c. c + 4)\<rparr>"

text \<open>Memory that nothing has initialised yet.\<close>

definition blank_manager :: PICO_MANAGER where
  "blank_manager =
     \<lparr>baseAddress = 7, blockSize = 7, usedSize = 7, entries = [], entryCount = 7,
      entryCapacity = 7, interPicoPadding = 7\<rparr>"

definition example_world :: world where
  "example_world = \<lparr>alloc_results = [5000, 6000, 7000], live = [], pico_loads = []\<rparr>"

text \<open>A manager initialised over an array of four slots, and the same with the padding
  set to 16.\<close>

definition example_initial :: PICO_MANAGER where
  "example_initial =
     (case PicoManagerInit (Some blank_manager) (replicate 4 zero_entry) 4 of
        Some m \<Rightarrow> m
      | None \<Rightarrow> blank_manager)"

definition example_fresh :: PICO_MANAGER where
  "example_fresh = example_initial\<lparr>interPicoPadding := 16\<rparr>"

definition example_ops :: "op list" where
  "example_ops =
     [Register (Some ''A'') 1000, Register (Some ''B'') 2000, Register (Some ''C'') 3000]"

text \<open>The manager after the three registrations.\<close>

definition example_registered :: PICO_MANAGER where
  "example_registered =
     (case run_ops example_libtcg example_ops example_fresh example_world of
        Some (rs, m, w) \<Rightarrow> m
      | None \<Rightarrow> example_fresh)"

text \<open>A manager with two loaded modules, and the world in which its three regions are
  reserved.\<close>

definition example_loaded :: PICO_MANAGER where
  "example_loaded =
     \<lparr>baseAddress = 4096, blockSize = 400, usedSize = 332,
      entries = [zero_entry\<lparr>pico_id := 0, code := 4096, codeSize := 100, data := 5000,
                             dataSize := 8, entryPoint := 4100, vault := 1000\<rparr>,
                 zero_entry\<lparr>pico_id := 1, code := 4212, codeSize := 200, data := 6000,
                             dataSize := 8, entryPoint := 4216, vault := 2000\<rparr>,
                 zero_entry],
      entryCount = 2, entryCapacity = 3, interPicoPadding = 16\<rparr>"

definition example_loaded_world :: world where
  "example_loaded_world =
     \<lparr>alloc_results = [],
      live = [(6000, 8, PAGE_READWRITE), (5000, 8, PAGE_READWRITE),
              (4096, 400, PAGE_EXECUTE_READWRITE)],
      pico_loads = [(99, 1000, 4096, 5000), (99, 2000, 4212, 6000)]\<rparr>"

text \<open>A manager with one module registered under a name of 31 characters.\<close>

definition example_long_named :: PICO_MANAGER where
  "example_long_named =
     (case run_ops example_libtcg [Register (Some (replicate 31 CHR ''a'')) 1000]
             example_fresh example_world of
        Some (rs, m, w) \<Rightarrow> m
      | None \<Rightarrow> example_fresh)"

text \<open>The three registered modules with a region of 400 bytes at the address 4096, and
  with a region of 381 bytes, one byte less than \<open>TotalCodeSize\<close>.\<close>

definition example_allocated :: PICO_MANAGER where
  "example_allocated = example_registered\<lparr>baseAddress := 4096, blockSize := 400\<rparr>"

definition example_undersized :: PICO_MANAGER where
  "example_undersized = example_registered\<lparr>baseAddress := 4096, blockSize := 381\<rparr>"

text \<open>A world whose \<open>VirtualAlloc\<close> refuses, and the manager that a load leaves
  there.\<close>

definition example_refusing_world :: world where
  "example_refusing_world = \<lparr>alloc_results = [], live = [], pico_loads = []\<rparr>"

definition example_half_placed :: PICO_MANAGER where
  "example_half_placed =
     example_allocated
       \<lparr>entries := (entries example_allocated)
          [0 := (entries example_allocated ! 0)\<lparr>code := 4096, data := NULL\<rparr>]\<rparr>"

text \<open>A catalog of two positions whose last one has no vault.\<close>

definition example_trailing_empty :: PICO_MANAGER where
  "example_trailing_empty =
     \<lparr>baseAddress = NULL, blockSize = 0, usedSize = 0,
      entries = [zero_entry\<lparr>codeSize := 100, dataSize := 8, vault := 1000\<rparr>, zero_entry],
      entryCount = 2, entryCapacity = 2, interPicoPadding = 16\<rparr>"

text \<open>The \<open>usedSize\<close> that a successful call leaves.\<close>

definition used_after :: "(BOOL \<times> PICO_MANAGER option \<times> world) option \<Rightarrow> SIZE_T option" where
  "used_after r = (case r of Some (TRUE, Some m, w) \<Rightarrow> Some (usedSize m) | _ \<Rightarrow> None)"






section \<open>The load loop\<close>

declare load_loop.simps [simp del]

lemma slot_Some: "slot es i = Some e \<longleftrightarrow> i < length es \<and> e = es ! i"
  by (auto simp: slot_def)

lemma slot_None: "slot es i = None \<longleftrightarrow> length es \<le> i"
  by (auto simp: slot_def)

lemma load_loop_done:
  "\<not> (i < unat B \<and> i < unat (entryCount m)) \<Longrightarrow>
     load_loop L funcs fp B i off m w = Some (TRUE, off, m, w)"
  by (subst load_loop.simps) auto

lemma load_loop_fault:
  "i < unat B \<Longrightarrow> i < unat (entryCount m) \<Longrightarrow> length (entries m) \<le> i \<Longrightarrow>
     load_loop L funcs fp B i off m w = None"
  by (simp add: load_loop.simps [of _ _ _ _ i] slot_def)

lemma load_loop_loaded:
  "i < unat B \<Longrightarrow> i < unat (entryCount m) \<Longrightarrow> i < length (entries m) \<Longrightarrow>
   code (entries m ! i) \<noteq> NULL \<Longrightarrow>
     load_loop L funcs fp B i off m w =
     load_loop L funcs fp B (Suc i)
       (off + (codeSize (entries m ! i) + interPicoPadding m)) m w"
  by (simp add: load_loop.simps [of _ _ _ _ i] slot_def)

lemma load_loop_empty:
  "i < unat B \<Longrightarrow> i < unat (entryCount m) \<Longrightarrow> i < length (entries m) \<Longrightarrow>
   code (entries m ! i) = NULL \<Longrightarrow> vault (entries m ! i) = NULL \<Longrightarrow>
     load_loop L funcs fp B i off m w = load_loop L funcs fp B (Suc i) off m w"
  by (simp add: load_loop.simps [of _ _ _ _ i] slot_def)

lemma load_loop_nospace:
  "i < unat B \<Longrightarrow> i < unat (entryCount m) \<Longrightarrow> i < length (entries m) \<Longrightarrow>
   code (entries m ! i) = NULL \<Longrightarrow> vault (entries m ! i) \<noteq> NULL \<Longrightarrow>
   off + (codeSize (entries m ! i) + interPicoPadding m) + fp > blockSize m \<Longrightarrow>
     load_loop L funcs fp B i off m w = Some (FALSE InsufficientSpace, off, m, w)"
  by (simp add: load_loop.simps [of _ _ _ _ i] slot_def)

lemma load_loop_allocfail:
  "i < unat B \<Longrightarrow> i < unat (entryCount m) \<Longrightarrow> i < length (entries m) \<Longrightarrow>
   code (entries m ! i) = NULL \<Longrightarrow> vault (entries m ! i) \<noteq> NULL \<Longrightarrow>
   \<not> off + (codeSize (entries m ! i) + interPicoPadding m) + fp > blockSize m \<Longrightarrow>
   VirtualAlloc w (dataSize (entries m ! i)) PAGE_READWRITE = (p, w1) \<Longrightarrow> p = NULL \<Longrightarrow>
     load_loop L funcs fp B i off m w =
     Some (FALSE AllocationFailed, off,
       m\<lparr>entries := (entries m)
            [i := (entries m ! i)\<lparr>code := baseAddress m + off, data := p\<rparr>]\<rparr>, w1)"
  by (simp add: load_loop.simps [of _ _ _ _ i] slot_def)

lemma load_loop_place:
  "i < unat B \<Longrightarrow> i < unat (entryCount m) \<Longrightarrow> i < length (entries m) \<Longrightarrow>
   code (entries m ! i) = NULL \<Longrightarrow> vault (entries m ! i) \<noteq> NULL \<Longrightarrow>
   \<not> off + (codeSize (entries m ! i) + interPicoPadding m) + fp > blockSize m \<Longrightarrow>
   VirtualAlloc w (dataSize (entries m ! i)) PAGE_READWRITE = (p, w1) \<Longrightarrow> p \<noteq> NULL \<Longrightarrow>
     load_loop L funcs fp B i off m w =
     load_loop L funcs fp B (Suc i)
       (off + (codeSize (entries m ! i) + interPicoPadding m))
       (m\<lparr>entries := (entries m)
            [i := (entries m ! i)
               \<lparr>code := baseAddress m + off, data := p,
                entryPoint := PicoEntryPoint L (vault (entries m ! i))
                                (baseAddress m + off)\<rparr>]\<rparr>)
       (PicoLoad w1 funcs (vault (entries m ! i)) (baseAddress m + off) p)"
  by (simp add: load_loop.simps [of _ _ _ _ i] slot_def)

lemma load_loop_induct [case_names finished fault loaded empty nospace allocfail place]:
  assumes "\<And>i off m w. \<not> (i < unat (B :: DWORD) \<and> i < unat (entryCount m)) \<Longrightarrow> P i off m w"
    and "\<And>i off m w. i < unat B \<Longrightarrow> i < unat (entryCount m) \<Longrightarrow> length (entries m) \<le> i
           \<Longrightarrow> P i off m w"
    and "\<And>i off m w. i < unat B \<Longrightarrow> i < unat (entryCount m) \<Longrightarrow> i < length (entries m)
           \<Longrightarrow> code (entries m ! i) \<noteq> NULL
           \<Longrightarrow> P (Suc i) (off + (codeSize (entries m ! i) + interPicoPadding m)) m w
           \<Longrightarrow> P i off m w"
    and "\<And>i off m w. i < unat B \<Longrightarrow> i < unat (entryCount m) \<Longrightarrow> i < length (entries m)
           \<Longrightarrow> code (entries m ! i) = NULL \<Longrightarrow> vault (entries m ! i) = NULL
           \<Longrightarrow> P (Suc i) off m w
           \<Longrightarrow> P i off m w"
    and "\<And>i off m w. i < unat B \<Longrightarrow> i < unat (entryCount m) \<Longrightarrow> i < length (entries m)
           \<Longrightarrow> code (entries m ! i) = NULL \<Longrightarrow> vault (entries m ! i) \<noteq> NULL
           \<Longrightarrow> off + (codeSize (entries m ! i) + interPicoPadding m) + fp > blockSize m
           \<Longrightarrow> P i off m w"
    and "\<And>i off m w p w1. i < unat B \<Longrightarrow> i < unat (entryCount m) \<Longrightarrow> i < length (entries m)
           \<Longrightarrow> code (entries m ! i) = NULL \<Longrightarrow> vault (entries m ! i) \<noteq> NULL
           \<Longrightarrow> \<not> off + (codeSize (entries m ! i) + interPicoPadding m) + fp > blockSize m
           \<Longrightarrow> VirtualAlloc w (dataSize (entries m ! i)) PAGE_READWRITE = (p, w1)
           \<Longrightarrow> p = NULL
           \<Longrightarrow> P i off m w"
    and "\<And>i off m w p w1. i < unat B \<Longrightarrow> i < unat (entryCount m) \<Longrightarrow> i < length (entries m)
           \<Longrightarrow> code (entries m ! i) = NULL \<Longrightarrow> vault (entries m ! i) \<noteq> NULL
           \<Longrightarrow> \<not> off + (codeSize (entries m ! i) + interPicoPadding m) + fp > blockSize m
           \<Longrightarrow> VirtualAlloc w (dataSize (entries m ! i)) PAGE_READWRITE = (p, w1)
           \<Longrightarrow> p \<noteq> NULL
           \<Longrightarrow> P (Suc i) (off + (codeSize (entries m ! i) + interPicoPadding m))
                 (m\<lparr>entries := (entries m)
                      [i := (entries m ! i)
                         \<lparr>code := baseAddress m + off, data := p,
                          entryPoint := PicoEntryPoint (L :: libtcg) (vault (entries m ! i))
                                          (baseAddress m + off)\<rparr>]\<rparr>)
                 (PicoLoad w1 (funcs :: ptr) (vault (entries m ! i)) (baseAddress m + off) p)
           \<Longrightarrow> P i off m w"
  shows "P i off (m :: PICO_MANAGER) w"
proof -
  have "\<forall>i off (m :: PICO_MANAGER) w. k = unat (entryCount m) - i \<longrightarrow> P i off m w" for k
  proof (induction k rule: less_induct)
  case (less k)
  show ?case
  proof (intro allI impI)
  fix i off and m :: PICO_MANAGER and w
  assume k: "k = unat (entryCount m) - i"
  show "P i off m w"
  proof (cases "i < unat B \<and> i < unat (entryCount m)")
    case False
    then show ?thesis by (rule assms(1))
  next
    case c: True
    then have c1: "i < unat B" and c2: "i < unat (entryCount m)" by simp_all
    have IH: "P (Suc i) off' (m\<lparr>entries := es'\<rparr>) w'" for off' es' w'
      using less.IH [of "unat (entryCount m) - Suc i"] c2 k by auto
    from IH [of _ "entries m"] have IH': "P (Suc i) off' m w'" for off' w' by simp
    show ?thesis
    proof (cases "i < length (entries m)")
      case False
      then show ?thesis by (intro assms(2) c1 c2) simp
    next
      case l: True
      show ?thesis
      proof (cases "code (entries m ! i) \<noteq> NULL")
        case True
        show ?thesis by (rule assms(3) [OF c1 c2 l True IH'])
      next
        case False
        then have nc: "code (entries m ! i) = NULL" by simp
        show ?thesis
        proof (cases "vault (entries m ! i) = NULL")
          case True
          show ?thesis by (rule assms(4) [OF c1 c2 l nc True IH'])
        next
          case v: False
          show ?thesis
          proof (cases "off + (codeSize (entries m ! i) + interPicoPadding m) + fp
                          > blockSize m")
            case True
            show ?thesis by (rule assms(5) [OF c1 c2 l nc v True])
          next
            case sp: False
            obtain p w1 where
              a: "VirtualAlloc w (dataSize (entries m ! i)) PAGE_READWRITE = (p, w1)"
              by (cases "VirtualAlloc w (dataSize (entries m ! i)) PAGE_READWRITE")
            show ?thesis
            proof (cases "p = NULL")
              case True
              show ?thesis by (rule assms(6) [OF c1 c2 l nc v sp a True])
            next
              case False
              show ?thesis by (rule assms(7) [OF c1 c2 l nc v sp a False IH])
            qed
          qed
        qed
      qed
    qed
  qed
  qed
  qed
  then show ?thesis by blast
qed


lemma load_loop_frame:
  "load_loop L funcs fp B i off m w = Some (r, off', m', w') \<Longrightarrow>
     entryCount m' = entryCount m \<and> baseAddress m' = baseAddress m
     \<and> blockSize m' = blockSize m \<and> interPicoPadding m' = interPicoPadding m
     \<and> usedSize m' = usedSize m \<and> entryCapacity m' = entryCapacity m
     \<and> length (entries m') = length (entries m)
     \<and> (\<forall>j. j < i \<or> unat B \<le> j \<or> unat (entryCount m) \<le> j
            \<longrightarrow> entries m' ! j = entries m ! j)"
proof (induction i off m w rule: load_loop_induct [where B = B and fp = fp and L = L and funcs = funcs])
  case (finished i off m w)
  then show ?case by (simp add: load_loop_done)
next
  case (fault i off m w)
  then show ?case by (simp add: load_loop_fault)
next
  case (loaded i off m w)
  then show ?case by (simp add: load_loop_loaded)
next
  case (empty i off m w)
  then show ?case by (simp add: load_loop_empty)
next
  case (nospace i off m w)
  then show ?case by (simp add: load_loop_nospace)
next
  case (allocfail i off m w p w1)
  then show ?case by (auto simp add: load_loop_allocfail)
next
  case (place i off m w p w1)
  then show ?case by (auto simp add: load_loop_place)
qed



lemma unat_of_nat_below:
  "k < unat (c :: DWORD) \<Longrightarrow> unat (of_nat k :: DWORD) = k"
  by (metis le_unat_uoi less_imp_le_nat)

lemma load_loop_nospace_prefix:
  "load_loop L funcs fp B i off m w = Some (FALSE InsufficientSpace, off', m', w') \<Longrightarrow>
     \<exists>k. i \<le> k \<and> k < unat B \<and> k < unat (entryCount m) \<and> k < length (entries m)
        \<and> load_loop L funcs fp (of_nat k) i off m w = Some (TRUE, off', m', w')
        \<and> code (entries m' ! k) = NULL \<and> vault (entries m' ! k) \<noteq> NULL
        \<and> blockSize m' < off' + (codeSize (entries m' ! k) + interPicoPadding m') + fp"
proof (induction i off m w rule: load_loop_induct [where B = B and fp = fp and L = L and funcs = funcs])
  case (finished i off m w)
  then show ?case by (simp add: load_loop_done)
next
  case (fault i off m w)
  then show ?case by (simp add: load_loop_fault)
next
  case (loaded i off m w)
  from loaded.prems loaded.hyps
  have run: "load_loop L funcs fp B (Suc i)
               (off + (codeSize (entries m ! i) + interPicoPadding m)) m w
             = Some (FALSE InsufficientSpace, off', m', w')"
    by (simp add: load_loop_loaded)
  from loaded.IH [OF run] obtain k where k: "Suc i \<le> k" "k < unat B" "k < unat (entryCount m)"
    "k < length (entries m)"
    "load_loop L funcs fp (of_nat k) (Suc i)
       (off + (codeSize (entries m ! i) + interPicoPadding m)) m w = Some (TRUE, off', m', w')"
    "code (entries m' ! k) = NULL" "vault (entries m' ! k) \<noteq> NULL"
    "blockSize m' < off' + (codeSize (entries m' ! k) + interPicoPadding m') + fp"
    by blast
  from k(1,3) have "i < unat (of_nat k :: DWORD)" by (simp add: unat_of_nat_below)
  with k loaded.hyps
  have "load_loop L funcs fp (of_nat k) i off m w = Some (TRUE, off', m', w')"
    by (simp add: load_loop_loaded)
  with k show ?case by (intro exI [of _ k]) simp
next
  case (empty i off m w)
  from empty.prems empty.hyps
  have run: "load_loop L funcs fp B (Suc i) off m w
             = Some (FALSE InsufficientSpace, off', m', w')"
    by (simp add: load_loop_empty)
  from empty.IH [OF run] obtain k where k: "Suc i \<le> k" "k < unat B" "k < unat (entryCount m)"
    "k < length (entries m)"
    "load_loop L funcs fp (of_nat k) (Suc i) off m w = Some (TRUE, off', m', w')"
    "code (entries m' ! k) = NULL" "vault (entries m' ! k) \<noteq> NULL"
    "blockSize m' < off' + (codeSize (entries m' ! k) + interPicoPadding m') + fp"
    by blast
  from k(1,3) have "i < unat (of_nat k :: DWORD)" by (simp add: unat_of_nat_below)
  with k empty.hyps
  have "load_loop L funcs fp (of_nat k) i off m w = Some (TRUE, off', m', w')"
    by (simp add: load_loop_empty)
  with k show ?case by (intro exI [of _ k]) simp
next
  case (nospace i off m w)
  from nospace.hyps(2) have "unat (of_nat i :: DWORD) = i" by (rule unat_of_nat_below)
  then have "load_loop L funcs fp (of_nat i) i off m w = Some (TRUE, off, m, w)"
    by (simp add: load_loop_done)
  with nospace show ?case by (intro exI [of _ i]) (simp add: load_loop_nospace)
next
  case (allocfail i off m w p w1)
  then show ?case by (simp add: load_loop_allocfail)
next
  case (place i off m w p w1)
  let ?e = "(entries m ! i)
               \<lparr>code := baseAddress m + off, data := p,
                entryPoint := PicoEntryPoint L (vault (entries m ! i))
                                (baseAddress m + off)\<rparr>"
  let ?m1 = "m\<lparr>entries := (entries m)[i := ?e]\<rparr>"
  let ?w1 = "PicoLoad w1 funcs (vault (entries m ! i)) (baseAddress m + off) p"
  let ?off1 = "off + (codeSize (entries m ! i) + interPicoPadding m)"
  from place.prems place.hyps
  have run: "load_loop L funcs fp B (Suc i) ?off1 ?m1 ?w1
             = Some (FALSE InsufficientSpace, off', m', w')"
    by (simp add: load_loop_place)
  from place.IH [OF run] obtain k where k: "Suc i \<le> k" "k < unat B" "k < unat (entryCount m)"
    "k < length (entries m)"
    "load_loop L funcs fp (of_nat k) (Suc i) ?off1 ?m1 ?w1 = Some (TRUE, off', m', w')"
    "code (entries m' ! k) = NULL" "vault (entries m' ! k) \<noteq> NULL"
    "blockSize m' < off' + (codeSize (entries m' ! k) + interPicoPadding m') + fp"
    by auto
  from k(1,3) have "i < unat (of_nat k :: DWORD)" by (simp add: unat_of_nat_below)
  with k place.hyps
  have "load_loop L funcs fp (of_nat k) i off m w = Some (TRUE, off', m', w')"
    by (simp add: load_loop_place)
  with k show ?case by (intro exI [of _ k]) simp
qed

text \<open>
  What a successful run leaves at a position it visits: a position that was unplaced and
  had a vault has its three pointers set, with a data region; every other position is
  as before.
\<close>

lemma load_loop_progress:
  assumes "load_loop L funcs fp B i off m w = Some (TRUE, off', m', w')"
    and "i \<le> j" and "j < unat B" and "j < unat (entryCount m)"
  shows "(if code (entries m ! j) = NULL \<and> vault (entries m ! j) \<noteq> NULL
          then \<exists>c d. d \<noteq> NULL
                 \<and> entries m' ! j =
                     (entries m ! j)\<lparr>code := c, data := d,
                        entryPoint := PicoEntryPoint L (vault (entries m ! j)) c\<rparr>
          else entries m' ! j = entries m ! j)"
  using assms
proof (induction i off m w rule: load_loop_induct [where B = B and fp = fp and L = L and funcs = funcs])
  case (finished i off m w)
  from finished(1) finished(3-5) have False by linarith
  then show ?case ..
next
  case (fault i off m w)
  then show ?case by (simp add: load_loop_fault)
next
  case (loaded i off m w)
  from loaded.prems(1) loaded.hyps
  have run: "load_loop L funcs fp B (Suc i)
               (off + (codeSize (entries m ! i) + interPicoPadding m)) m w
             = Some (TRUE, off', m', w')"
    by (simp add: load_loop_loaded)
  show ?case
  proof (cases "j = i")
    case True
    from load_loop_frame [OF run] have "entries m' ! i = entries m ! i" by simp
    with True loaded.hyps show ?thesis by simp
  next
    case False
    with loaded.prems(2) have "Suc i \<le> j" by simp
    from loaded.IH [OF run this loaded.prems(3,4)] show ?thesis .
  qed
next
  case (empty i off m w)
  from empty.prems(1) empty.hyps
  have run: "load_loop L funcs fp B (Suc i) off m w = Some (TRUE, off', m', w')"
    by (simp add: load_loop_empty)
  show ?case
  proof (cases "j = i")
    case True
    from load_loop_frame [OF run] have "entries m' ! i = entries m ! i" by simp
    with True empty.hyps show ?thesis by simp
  next
    case False
    with empty.prems(2) have "Suc i \<le> j" by simp
    from empty.IH [OF run this empty.prems(3,4)] show ?thesis .
  qed
next
  case (nospace i off m w)
  then show ?case by (simp add: load_loop_nospace)
next
  case (allocfail i off m w p w1)
  then show ?case by (simp add: load_loop_allocfail)
next
  case (place i off m w p w1)
  let ?e = "(entries m ! i)
               \<lparr>code := baseAddress m + off, data := p,
                entryPoint := PicoEntryPoint L (vault (entries m ! i))
                                (baseAddress m + off)\<rparr>"
  let ?m1 = "m\<lparr>entries := (entries m)[i := ?e]\<rparr>"
  let ?w1 = "PicoLoad w1 funcs (vault (entries m ! i)) (baseAddress m + off) p"
  let ?off1 = "off + (codeSize (entries m ! i) + interPicoPadding m)"
  from place.prems(1) place.hyps
  have run: "load_loop L funcs fp B (Suc i) ?off1 ?m1 ?w1 = Some (TRUE, off', m', w')"
    by (simp add: load_loop_place)
  show ?case
  proof (cases "j = i")
    case True
    from load_loop_frame [OF run] place.hyps have "entries m' ! i = ?e" by simp
    with place.hyps(8)
    have "\<exists>c d. d \<noteq> NULL
            \<and> entries m' ! i =
                (entries m ! i)\<lparr>code := c, data := d,
                   entryPoint := PicoEntryPoint L (vault (entries m ! i)) c\<rparr>"
      by (intro exI [of _ "baseAddress m + off"] exI [of _ p]) simp
    with True place.hyps show ?thesis by simp
  next
    case False
    with place.prems(2) have j: "Suc i \<le> j" by simp
    from place.prems(4) have c: "j < unat (entryCount ?m1)" by simp
    from False have eq: "entries ?m1 ! j = entries m ! j" by simp
    from place.IH [OF run j place.prems(3) c] show ?thesis
      by (simp only: eq)
  qed
qed

lemma load_loop_place_next:
  assumes "i < unat B" "i < unat (entryCount m)" "i < length (entries m)"
    "code (entries m ! i) = NULL" "vault (entries m ! i) \<noteq> NULL"
    "\<not> blockSize m < off + (codeSize (entries m ! i) + interPicoPadding m) + fp"
    "alloc_results w = p # ps" "p \<noteq> NULL"
  shows "load_loop L funcs fp B i off m w =
     load_loop L funcs fp B (Suc i)
       (off + (codeSize (entries m ! i) + interPicoPadding m))
       (m\<lparr>entries := (entries m)
            [i := (entries m ! i)
               \<lparr>code := baseAddress m + off, data := p,
                entryPoint := PicoEntryPoint L (vault (entries m ! i))
                                (baseAddress m + off)\<rparr>]\<rparr>)
       (w\<lparr>alloc_results := ps,
          live := (p, dataSize (entries m ! i), PAGE_READWRITE) # live w,
          pico_loads := pico_loads w
            @ [(funcs, vault (entries m ! i), baseAddress m + off, p)]\<rparr>)"
  using assms
  by (subst load_loop_place [where p = p and ?w1.0 = "w\<lparr>alloc_results := ps,
          live := (p, dataSize (entries m ! i), PAGE_READWRITE) # live w\<rparr>"])
     (simp_all add: VirtualAlloc_def PicoLoad_def)

subsection \<open>Three modules in a region\<close>

lemma load_first_two:
  fixes m :: PICO_MANAGER
  assumes reg: "entryCount m = 3" "interPicoPadding m = 16" "3 \<le> length (entries m)"
    and sizes: "codeSize (entries m ! 0) = 100" "codeSize (entries m ! 1) = 200"
    and fresh: "code (entries m ! 0) = NULL" "code (entries m ! 1) = NULL"
    and vaults: "vault (entries m ! 0) \<noteq> NULL" "vault (entries m ! 1) \<noteq> NULL"
    and region: "\<not> blockSize m < 332"
    and allocs: "alloc_results w = dA # dB # rest" "dA \<noteq> NULL" "dB \<noteq> NULL"
  shows "load_loop L funcs 0 3 0 0 m w =
     load_loop L funcs 0 3 2 332
       (m\<lparr>entries := (entries m)
            [0 := (entries m ! 0)
               \<lparr>code := baseAddress m, data := dA,
                entryPoint := PicoEntryPoint L (vault (entries m ! 0)) (baseAddress m)\<rparr>,
             1 := (entries m ! 1)
               \<lparr>code := baseAddress m + 116, data := dB,
                entryPoint := PicoEntryPoint L (vault (entries m ! 1))
                                (baseAddress m + 116)\<rparr>]\<rparr>)
       (w\<lparr>alloc_results := rest,
          live := (dB, dataSize (entries m ! 1), PAGE_READWRITE)
                  # (dA, dataSize (entries m ! 0), PAGE_READWRITE) # live w,
          pico_loads := pico_loads w
             @ [(funcs, vault (entries m ! 0), baseAddress m, dA),
                (funcs, vault (entries m ! 1), baseAddress m + 116, dB)]\<rparr>)"
proof -
  from reg have len: "entries m \<noteq> []" "0 < length (entries m)" "Suc 0 < length (entries m)"
    by auto
  from region have r1: "\<not> blockSize m < 116"
    by (simp add: word_less_nat_alt)
  note facts = len r1 assms
  let ?e0 = "(entries m ! 0)\<lparr>code := baseAddress m, data := dA,
               entryPoint := PicoEntryPoint L (vault (entries m ! 0)) (baseAddress m)\<rparr>"
  let ?m1 = "m\<lparr>entries := (entries m)[0 := ?e0]\<rparr>"
  let ?w1 = "w\<lparr>alloc_results := dB # rest,
          live := (dA, dataSize (entries m ! 0), PAGE_READWRITE) # live w,
          pico_loads := pico_loads w @ [(funcs, vault (entries m ! 0), baseAddress m, dA)]\<rparr>"
  have s0: "load_loop L funcs 0 3 0 0 m w = load_loop L funcs 0 3 (Suc 0) 116 ?m1 ?w1"
    using facts by (subst load_loop_place_next [where p = dA and ps = "dB # rest"]) simp_all
  show ?thesis
    unfolding s0 using facts
    by (subst load_loop_place_next [where p = dB and ps = rest])
      (simp_all add: numeral_2_eq_2 [symmetric])
qed

lemma load_three:
  fixes m :: PICO_MANAGER
  assumes reg: "entryCount m = 3" "interPicoPadding m = 16" "3 \<le> length (entries m)"
    and sizes: "codeSize (entries m ! 0) = 100" "codeSize (entries m ! 1) = 200"
      "codeSize (entries m ! 2) = 50"
    and fresh: "code (entries m ! 0) = NULL" "code (entries m ! 1) = NULL"
      "code (entries m ! 2) = NULL"
    and vaults: "vault (entries m ! 0) \<noteq> NULL" "vault (entries m ! 1) \<noteq> NULL"
      "vault (entries m ! 2) \<noteq> NULL"
    and region: "baseAddress m \<noteq> NULL" "blockSize m = 400"
    and allocs: "alloc_results w = dA # dB # dC # rest" "dA \<noteq> NULL" "dB \<noteq> NULL" "dC \<noteq> NULL"
  shows "\<exists>m' w'. LoadPico L (Some m) ALL_ENTRIES 0 funcs w = Some (TRUE, Some m', w')
           \<and> code (entries m' ! 0) = baseAddress m
           \<and> code (entries m' ! 1) = baseAddress m + 116
           \<and> code (entries m' ! 2) = baseAddress m + 332
           \<and> data (entries m' ! 0) = dA \<and> data (entries m' ! 1) = dB
           \<and> data (entries m' ! 2) = dC
           \<and> usedSize m' = 398
           \<and> alloc_results w' = rest"
proof -
  from reg have len: "entries m \<noteq> []" "0 < length (entries m)" "Suc 0 < length (entries m)"
    "2 < length (entries m)"
    by auto
  note facts = len assms
  let ?e0 = "(entries m ! 0)\<lparr>code := baseAddress m, data := dA,
               entryPoint := PicoEntryPoint L (vault (entries m ! 0)) (baseAddress m)\<rparr>"
  let ?e1 = "(entries m ! 1)\<lparr>code := baseAddress m + 116, data := dB,
               entryPoint := PicoEntryPoint L (vault (entries m ! 1)) (baseAddress m + 116)\<rparr>"
  let ?m2 = "m\<lparr>entries := (entries m)[0 := ?e0, 1 := ?e1]\<rparr>"
  let ?w2 = "w\<lparr>alloc_results := dC # rest,
          live := (dB, dataSize (entries m ! 1), PAGE_READWRITE)
                  # (dA, dataSize (entries m ! 0), PAGE_READWRITE) # live w,
          pico_loads := pico_loads w
             @ [(funcs, vault (entries m ! 0), baseAddress m, dA),
                (funcs, vault (entries m ! 1), baseAddress m + 116, dB)]\<rparr>"
  have s1: "load_loop L funcs 0 3 0 0 m w = load_loop L funcs 0 3 2 332 ?m2 ?w2"
    using facts by (intro load_first_two [where rest = "dC # rest"]) simp_all
  let ?e2 = "(entries m ! 2)\<lparr>code := baseAddress m + 332, data := dC,
               entryPoint := PicoEntryPoint L (vault (entries m ! 2)) (baseAddress m + 332)\<rparr>"
  let ?m3 = "m\<lparr>entries := (entries m)[0 := ?e0, 1 := ?e1, 2 := ?e2]\<rparr>"
  let ?w3 = "w\<lparr>alloc_results := rest,
          live := (dC, dataSize (entries m ! 2), PAGE_READWRITE)
                  # (dB, dataSize (entries m ! 1), PAGE_READWRITE)
                  # (dA, dataSize (entries m ! 0), PAGE_READWRITE) # live w,
          pico_loads := pico_loads w
             @ [(funcs, vault (entries m ! 0), baseAddress m, dA),
                (funcs, vault (entries m ! 1), baseAddress m + 116, dB),
                (funcs, vault (entries m ! 2), baseAddress m + 332, dC)]\<rparr>"
  have s2: "load_loop L funcs 0 3 2 332 ?m2 ?w2 = load_loop L funcs 0 3 3 398 ?m3 ?w3"
    using facts by (subst load_loop_place_next [where p = dC and ps = rest]) simp_all
  have s3: "load_loop L funcs 0 3 3 398 ?m3 ?w3 = Some (TRUE, 398, ?m3, ?w3)"
    by (rule load_loop_done) simp
  from s1 s2 s3 have "load_loop L funcs 0 3 0 0 m w = Some (TRUE, 398, ?m3, ?w3)" by simp
  with facts show ?thesis
    by (simp add: LoadPico_def ALL_ENTRIES_def)
qed

lemma load_three_undersized:
  fixes m :: PICO_MANAGER
  assumes reg: "entryCount m = 3" "interPicoPadding m = 16" "3 \<le> length (entries m)"
    and sizes: "codeSize (entries m ! 0) = 100" "codeSize (entries m ! 1) = 200"
      "codeSize (entries m ! 2) = 50"
    and fresh: "code (entries m ! 0) = NULL" "code (entries m ! 1) = NULL"
      "code (entries m ! 2) = NULL"
    and vaults: "vault (entries m ! 0) \<noteq> NULL" "vault (entries m ! 1) \<noteq> NULL"
      "vault (entries m ! 2) \<noteq> NULL"
    and region: "baseAddress m \<noteq> NULL" "blockSize m = 381"
    and allocs: "alloc_results w = dA # dB # rest" "dA \<noteq> NULL" "dB \<noteq> NULL"
  shows "\<exists>m' w'. LoadPico L (Some m) ALL_ENTRIES 0 funcs w
                   = Some (FALSE InsufficientSpace, Some m', w')
           \<and> code (entries m' ! 0) = baseAddress m
           \<and> code (entries m' ! 1) = baseAddress m + 116
           \<and> code (entries m' ! 2) = NULL
           \<and> data (entries m' ! 0) = dA \<and> data (entries m' ! 1) = dB
           \<and> usedSize m' = usedSize m
           \<and> alloc_results w' = rest"
proof -
  from reg have len: "entries m \<noteq> []" "0 < length (entries m)" "Suc 0 < length (entries m)"
    "2 < length (entries m)"
    by auto
  note facts = len assms
  let ?e0 = "(entries m ! 0)\<lparr>code := baseAddress m, data := dA,
               entryPoint := PicoEntryPoint L (vault (entries m ! 0)) (baseAddress m)\<rparr>"
  let ?e1 = "(entries m ! 1)\<lparr>code := baseAddress m + 116, data := dB,
               entryPoint := PicoEntryPoint L (vault (entries m ! 1)) (baseAddress m + 116)\<rparr>"
  let ?m2 = "m\<lparr>entries := (entries m)[0 := ?e0, 1 := ?e1]\<rparr>"
  let ?w2 = "w\<lparr>alloc_results := rest,
          live := (dB, dataSize (entries m ! 1), PAGE_READWRITE)
                  # (dA, dataSize (entries m ! 0), PAGE_READWRITE) # live w,
          pico_loads := pico_loads w
             @ [(funcs, vault (entries m ! 0), baseAddress m, dA),
                (funcs, vault (entries m ! 1), baseAddress m + 116, dB)]\<rparr>"
  have s1: "load_loop L funcs 0 3 0 0 m w = load_loop L funcs 0 3 2 332 ?m2 ?w2"
    using facts by (intro load_first_two) simp_all
  have s2: "load_loop L funcs 0 3 2 332 ?m2 ?w2 = Some (FALSE InsufficientSpace, 332, ?m2, ?w2)"
    using facts by (intro load_loop_nospace) simp_all
  from s1 s2 facts show ?thesis
    by (simp add: LoadPico_def ALL_ENTRIES_def)
qed

section \<open>The sizing loop\<close>

declare total_loop.simps [simp del]

lemma total_loop_done:
  "\<not> i < unat (entryCount m) \<Longrightarrow> total_loop m i t = Some t"
  by (simp add: total_loop.simps [of m i])

lemma total_loop_skip:
  "i < unat (entryCount m) \<Longrightarrow> i < length (entries m) \<Longrightarrow> vault (entries m ! i) = NULL \<Longrightarrow>
     total_loop m i t = total_loop m (Suc i) t"
  by (simp add: total_loop.simps [of m i] slot_def)

lemma total_loop_add:
  "i < unat (entryCount m) \<Longrightarrow> i < length (entries m) \<Longrightarrow> vault (entries m ! i) \<noteq> NULL \<Longrightarrow>
     total_loop m i t =
     total_loop m (Suc i)
       (if (of_nat i :: DWORD) < entryCount m - 1
        then t + codeSize (entries m ! i) + interPicoPadding m
        else t + codeSize (entries m ! i))"
  by (simp add: total_loop.simps [of m i] slot_def Let_def)

lemma total_three:
  fixes m :: PICO_MANAGER
  assumes reg: "entryCount m = 3" "interPicoPadding m = 16" "3 \<le> length (entries m)"
    and sizes: "codeSize (entries m ! 0) = 100" "codeSize (entries m ! 1) = 200"
      "codeSize (entries m ! 2) = 50"
    and vaults: "vault (entries m ! 0) \<noteq> NULL" "vault (entries m ! 1) \<noteq> NULL"
      "vault (entries m ! 2) \<noteq> NULL"
  shows "TotalCodeSize (Some m) = Some 382"
proof -
  from reg have len: "0 < length (entries m)" "Suc 0 < length (entries m)"
    "2 < length (entries m)"
    by auto
  note facts = len assms
  have s0: "total_loop m 0 0 = total_loop m (Suc 0) 116"
    using facts by (subst total_loop_add) simp_all
  have s1: "total_loop m (Suc 0) 116 = total_loop m 2 332"
    using facts by (subst total_loop_add) (simp_all add: numeral_2_eq_2 [symmetric])
  have s2: "total_loop m 2 332 = total_loop m 3 382"
    using facts by (subst total_loop_add) simp_all
  have s3: "total_loop m 3 382 = Some 382"
    using facts by (subst total_loop_done) simp_all
  from s0 s1 s2 s3 show ?thesis by (simp add: TotalCodeSize_def)
qed

section \<open>Registration and removal\<close>

declare shift_loop.simps [simp del]

lemma AddPico_ok:
  assumes "v \<noteq> NULL" "entryCount m < entryCapacity m" "unat (entryCount m) < length (entries m)"
  shows "AddPico L (Some m) (Some nm) v =
     Some (TRUE,
       Some (m\<lparr>entries := (entries m)
                 [unat (entryCount m) :=
                    (entries m ! unat (entryCount m))
                      \<lparr>pico_id := entryCount m,
                       name := (strncpy (name (entries m ! unat (entryCount m))) nm
                                  (PICO_NAME_MAX_LENGTH - 1))
                                 [PICO_NAME_MAX_LENGTH - 1 := NUL],
                       code := NULL,
                       codeSize := scast (PicoCodeSize L v),
                       data := NULL,
                       dataSize := scast (PicoDataSize L v),
                       entryPoint := NULL,
                       vault := v\<rparr>],
               entryCount := entryCount m + 1\<rparr>))"
  using assms by (simp add: AddPico_def slot_def Let_def not_le [symmetric])

lemma AddPico_full:
  "entryCapacity m \<le> entryCount m \<Longrightarrow> v \<noteq> NULL \<Longrightarrow>
     AddPico L (Some m) (Some nm) v = Some (FALSE CapacityExceeded, Some m)"
  by (simp add: AddPico_def)

lemma AddPico_invalid:
  "v = NULL \<or> nm = None \<Longrightarrow> AddPico L (Some m) nm v = Some (FALSE InvalidArgument, Some m)"
  by (auto simp add: AddPico_def)

lemma unat_Suc_below:
  fixes c :: DWORD
  assumes "c < d"
  shows "unat (c + 1) = Suc (unat c)"
proof -
  have "unat c < unat d" using assms by (simp add: word_less_nat_alt)
  moreover have "unat d < 2 ^ 32" using unsigned_less [of d, where ?'a = nat] by simp
  ultimately have "unat c + unat (1 :: DWORD) < 2 ^ LENGTH(32)" by simp
  then show ?thesis by (simp add: unat_add_lem [THEN iffD1])
qed

lemma unat_pred:
  fixes c :: DWORD
  assumes "d < c"
  shows "unat (c - 1) = unat c - 1"
  by (metis assms unat_minus_one word_not_simps(1))

lemma shift_loop_props:
  "shift_loop m i = Some m' \<Longrightarrow>
     entryCount m' = entryCount m \<and> entryCapacity m' = entryCapacity m
     \<and> baseAddress m' = baseAddress m \<and> blockSize m' = blockSize m
     \<and> usedSize m' = usedSize m \<and> interPicoPadding m' = interPicoPadding m
     \<and> length (entries m') = length (entries m)
     \<and> (\<forall>j. j < i \<or> unat (entryCount m - 1) \<le> j \<longrightarrow> entries m' ! j = entries m ! j)
     \<and> (\<forall>j. i \<le> j \<and> j < unat (entryCount m - 1)
            \<longrightarrow> entries m' ! j = (entries m ! Suc j)\<lparr>pico_id := of_nat j\<rparr>)"
proof (induction m i arbitrary: m' rule: shift_loop.induct)
  case (1 m i)
  show ?case
  proof (cases "i < unat (entryCount m - 1)")
    case False
    with "1.prems" show ?thesis by (auto simp add: shift_loop.simps [of m i])
  next
    case True
    with "1.prems" obtain e where e: "slot (entries m) (Suc i) = Some e"
      by (cases "slot (entries m) (Suc i)") (simp_all add: shift_loop.simps [of m i])
    then have l: "Suc i < length (entries m)" and e': "e = entries m ! Suc i"
      by (simp_all add: slot_Some)
    let ?m1 = "m\<lparr>entries := (entries m)[i := e\<lparr>pico_id := of_nat i\<rparr>]\<rparr>"
    from "1.prems" True e have run: "shift_loop ?m1 (Suc i) = Some m'"
      by (simp add: shift_loop.simps [of m i])
    note IH = "1.IH" [OF True e run]
    have a: "entries m' ! j = entries m ! j" if "j < i \<or> unat (entryCount m - 1) \<le> j" for j
      using IH that True by auto
    have b: "entries m' ! j = (entries m ! Suc j)\<lparr>pico_id := of_nat j\<rparr>"
      if "i \<le> j \<and> j < unat (entryCount m - 1)" for j
    proof (cases "j = i")
      case True
      with IH l e' show ?thesis by simp
    next
      case False
      with that IH show ?thesis by simp
    qed
    from IH a b show ?thesis by simp
  qed
qed

lemma shift_loop_total:
  "unat (entryCount m - 1) < length (entries m) \<Longrightarrow> \<exists>m'. shift_loop m i = Some m'"
proof (induction m i rule: shift_loop.induct)
  case (1 m i)
  show ?case
  proof (cases "i < unat (entryCount m - 1)")
    case False
    then show ?thesis by (simp add: shift_loop.simps [of m i])
  next
    case True
    with "1.prems" have l: "Suc i < length (entries m)" by simp
    then have e: "slot (entries m) (Suc i) = Some (entries m ! Suc i)" by (simp add: slot_def)
    from "1.IH" [OF True e] "1.prems" True e show ?thesis
      by (simp add: shift_loop.simps [of m i])
  qed
qed


lemma RemovePicoById_missing:
  "entryCount m \<le> id' \<Longrightarrow> RemovePicoById (Some m) id' w = Some (FALSE NotFound, Some m, w)"
  by (simp add: RemovePicoById_def)

lemma RemovePicoById_found:
  assumes id: "id' < entryCount m" and arr: "unat (entryCount m) \<le> length (entries m)"
  shows "\<exists>m'. RemovePicoById (Some m) id' w =
            Some (TRUE, Some m',
              if data (entries m ! unat id') \<noteq> NULL
              then VirtualFree w (data (entries m ! unat id')) else w)
          \<and> entryCount m' = entryCount m - 1
          \<and> unat (entryCount m') = unat (entryCount m) - 1
          \<and> entryCapacity m' = entryCapacity m \<and> baseAddress m' = baseAddress m
          \<and> blockSize m' = blockSize m \<and> usedSize m' = usedSize m
          \<and> interPicoPadding m' = interPicoPadding m
          \<and> length (entries m') = length (entries m)
          \<and> (\<forall>j<unat id'. entries m' ! j = entries m ! j)
          \<and> (\<forall>j. unat id' \<le> j \<and> j < unat (entryCount m) - 1
                 \<longrightarrow> entries m' ! j = (entries m ! Suc j)\<lparr>pico_id := of_nat j\<rparr>)
          \<and> entries m' ! (unat (entryCount m) - 1) = zero_entry
          \<and> (\<forall>j\<ge>unat (entryCount m). entries m' ! j = entries m ! j)"
proof -
  let ?k = "unat id'" and ?n = "unat (entryCount m)"
  let ?e = "entries m ! ?k"
  from id have kn: "?k < ?n" by (simp add: word_less_nat_alt)
  with arr have kl: "?k < length (entries m)" by simp
  from id have n1: "unat (entryCount m - 1) = ?n - 1" by (rule unat_pred)
  define m1 where "m1 = (if data ?e \<noteq> NULL
                           then m\<lparr>entries := (entries m)[?k := ?e\<lparr>data := NULL\<rparr>]\<rparr> else m)"
  define w1 where "w1 = (if data ?e \<noteq> NULL then VirtualFree w (data ?e) else w)"
  have m1: "entryCount m1 = entryCount m" "entryCapacity m1 = entryCapacity m"
    "baseAddress m1 = baseAddress m" "blockSize m1 = blockSize m" "usedSize m1 = usedSize m"
    "interPicoPadding m1 = interPicoPadding m" "length (entries m1) = length (entries m)"
    by (simp_all add: m1_def)
  have m1_nth: "entries m1 ! j = entries m ! j" if "j \<noteq> ?k" for j
    using that by (simp add: m1_def)
  from kn arr n1 m1 have "unat (entryCount m1 - 1) < length (entries m1)" by simp
  from shift_loop_total [OF this] obtain m2 where m2: "shift_loop m1 ?k = Some m2" by blast
  note sh = shift_loop_props [OF m2]
  from sh m1 have len2: "length (entries m2) = length (entries m)" by simp
  let ?m' = "m2\<lparr>entries := (entries m2)[unat (entryCount m2 - 1) := zero_entry],
                 entryCount := entryCount m2 - 1\<rparr>"
  from sh m1 n1 have c2: "unat (entryCount m2 - 1) = ?n - 1" by simp
  from id kl m2 c2 len2 kn arr
  have call: "RemovePicoById (Some m) id' w = Some (TRUE, Some ?m', w1)"
    by (simp add: RemovePicoById_def slot_def m1_def w1_def not_le [symmetric] split: if_splits)
  have before: "entries ?m' ! j = entries m ! j" if "j < ?k" for j
    using that sh m1 m1_nth [of j] c2 kn by simp
  have moved: "entries ?m' ! j = (entries m ! Suc j)\<lparr>pico_id := of_nat j\<rparr>"
    if "?k \<le> j \<and> j < ?n - 1" for j
    using that sh m1 m1_nth [of "Suc j"] c2 n1 by simp
  have last: "entries ?m' ! (?n - 1) = zero_entry"
    using c2 len2 kn arr by simp
  have beyond: "entries ?m' ! j = entries m ! j" if "?n \<le> j" for j
    using that sh m1 m1_nth [of j] c2 n1 kn by simp
  from call sh m1 c2 before moved last beyond show ?thesis
    by (intro exI [of _ ?m']) (simp add: w1_def)
qed

section \<open>Lookup by name\<close>

declare name_loop.simps [simp del]

lemma catalog_ok_iff:
  "catalog_ok m \<longleftrightarrow>
     entryCount m \<le> entryCapacity m \<and> unat (entryCapacity m) \<le> length (entries m)
     \<and> (\<forall>i<unat (entryCount m). pico_id (entries m ! i) = of_nat i)"
  by (auto simp: catalog_ok_def list_all_iff)

lemma catalog_ok_array: "catalog_ok m \<Longrightarrow> unat (entryCount m) \<le> length (entries m)"
  by (auto simp: catalog_ok_iff word_le_nat_alt)

lemma name_loop_total:
  "unat (entryCount m) \<le> length (entries m) \<Longrightarrow> \<exists>r. name_loop m nm n i = Some r"
proof (induction m nm n i rule: name_loop.induct)
  case (1 m nm n i)
  show ?case
  proof (cases "i < unat (entryCount m)")
    case False
    then show ?thesis by (simp add: name_loop.simps [of m nm n i])
  next
    case True
    with "1.prems" have s: "slot (entries m) i = Some (entries m ! i)" by (simp add: slot_def)
    show ?thesis
    proof (cases "strncmp (name (entries m ! i)) nm n = 0 \<and> byte_at (name (entries m ! i)) n = NUL")
      case True
      with \<open>i < unat (entryCount m)\<close> s show ?thesis by (simp add: name_loop.simps [of m nm n i])
    next
      case False
      with "1.IH" [OF \<open>i < unat (entryCount m)\<close> s] "1.prems" \<open>i < unat (entryCount m)\<close> s
      show ?thesis by (auto simp add: name_loop.simps [of m nm n i])
    qed
  qed
qed

lemma name_loop_result:
  "name_loop m nm n i = Some r \<Longrightarrow>
     (case r of
        None \<Rightarrow> \<forall>j. i \<le> j \<and> j < unat (entryCount m)
                 \<longrightarrow> \<not> (strncmp (name (entries m ! j)) nm n = 0
                        \<and> byte_at (name (entries m ! j)) n = NUL)
      | Some k \<Rightarrow> i \<le> k \<and> k < unat (entryCount m) \<and> k < length (entries m)
          \<and> strncmp (name (entries m ! k)) nm n = 0 \<and> byte_at (name (entries m ! k)) n = NUL
          \<and> (\<forall>j. i \<le> j \<and> j < k
                 \<longrightarrow> \<not> (strncmp (name (entries m ! j)) nm n = 0
                        \<and> byte_at (name (entries m ! j)) n = NUL)))"
proof (induction m nm n i rule: name_loop.induct)
  case (1 m nm n i)
  show ?case
  proof (cases "i < unat (entryCount m)")
    case False
    with "1.prems" show ?thesis by (auto simp add: name_loop.simps [of m nm n i])
  next
    case c: True
    with "1.prems" obtain e where e: "slot (entries m) i = Some e"
      by (cases "slot (entries m) i") (simp_all add: name_loop.simps [of m nm n i])
    then have l: "i < length (entries m)" and e': "e = entries m ! i"
      by (simp_all add: slot_Some)
    show ?thesis
    proof (cases "strncmp (name e) nm n = 0 \<and> byte_at (name e) n = NUL")
      case True
      with "1.prems" c e have "r = Some i" by (simp add: name_loop.simps [of m nm n i])
      with True c l e' show ?thesis by auto
    next
      case False
      with "1.prems" c e have run: "name_loop m nm n (Suc i) = Some r"
        by (simp add: name_loop.simps [of m nm n i])
      note IH = "1.IH" [OF c e False run]
      show ?thesis
      proof (cases r)
        case None
        with IH have "\<forall>j. Suc i \<le> j \<and> j < unat (entryCount m)
                 \<longrightarrow> \<not> (strncmp (name (entries m ! j)) nm n = 0
                        \<and> byte_at (name (entries m ! j)) n = NUL)" by simp
        with False e' have "\<forall>j. i \<le> j \<and> j < unat (entryCount m)
                 \<longrightarrow> \<not> (strncmp (name (entries m ! j)) nm n = 0
                        \<and> byte_at (name (entries m ! j)) n = NUL)"
          by (metis Suc_leI le_neq_implies_less)
        with None show ?thesis by simp
      next
        case (Some k)
        with IH have k: "Suc i \<le> k" "k < unat (entryCount m)" "k < length (entries m)"
          "strncmp (name (entries m ! k)) nm n = 0" "byte_at (name (entries m ! k)) n = NUL"
          and nm: "\<forall>j. Suc i \<le> j \<and> j < k
                 \<longrightarrow> \<not> (strncmp (name (entries m ! j)) nm n = 0
                        \<and> byte_at (name (entries m ! j)) n = NUL)"
          by simp_all
        from nm False e' have "\<forall>j. i \<le> j \<and> j < k
                 \<longrightarrow> \<not> (strncmp (name (entries m ! j)) nm n = 0
                        \<and> byte_at (name (entries m ! j)) n = NUL)"
          by (metis Suc_leI le_neq_implies_less)
        with Some k show ?thesis by simp
      qed
    qed
  qed
qed

subsection \<open>Comparing names\<close>

lemma cstr_Nil [simp]: "cstr [] = []"
  by (simp add: cstr_def)

lemma cstr_Cons: "cstr (c # s) = (if c = NUL then [] else c # cstr s)"
  by (simp add: cstr_def)

lemma byte_at_Nil [simp]: "byte_at [] n = NUL"
  by (simp add: byte_at_def)

lemma byte_at_Cons_0 [simp]: "byte_at (c # s) 0 = c"
  by (simp add: byte_at_def)

lemma byte_at_Cons_Suc [simp]: "byte_at (c # s) (Suc n) = byte_at s n"
  by (simp add: byte_at_def)

lemma strlen_Cons: "strlen (c # s) = (if c = NUL then 0 else Suc (strlen s))"
  by (simp add: strlen_def cstr_Cons)

lemma strlen_Nil [simp]: "strlen [] = 0"
  by (simp add: strlen_def)

lemma strncmp_zero_iff:
  "n \<le> strlen q \<Longrightarrow> strncmp s q n = 0 \<longleftrightarrow> n \<le> length s \<and> take n s = take n q"
proof (induction n arbitrary: s q)
  case 0
  show ?case by simp
next
  case (Suc n)
  from Suc.prems obtain c q' where q: "q = c # q'" and c: "c \<noteq> NUL" and n: "n \<le> strlen q'"
    by (cases q) (auto simp add: strlen_Cons split: if_splits)
  show ?case
  proof (cases s)
    case Nil
    with q c show ?thesis by simp
  next
    case (Cons d s')
    show ?thesis
    proof (cases "d = c")
      case True
      with Cons q c Suc.IH [OF n, of s'] show ?thesis by simp
    next
      case False
      with Cons q show ?thesis by simp
    qed
  qed
qed

lemma take_cstr: "n \<le> strlen q \<Longrightarrow> take n (cstr q) = take n q"
proof (induction q arbitrary: n)
  case Nil
  then show ?case by simp
next
  case (Cons c q)
  show ?case
  proof (cases n)
    case 0
    then show ?thesis by simp
  next
    case (Suc n')
    with Cons.prems have "c \<noteq> NUL" "n' \<le> strlen q"
      by (simp_all add: strlen_Cons split: if_splits)
    with Cons.IH [of n'] Suc show ?thesis by (simp add: cstr_Cons)
  qed
qed

lemma cstr_from_prefix:
  "n \<le> length s \<Longrightarrow> take n s = take n (cstr q) \<Longrightarrow> n \<le> strlen q \<Longrightarrow>
   byte_at s n = NUL \<Longrightarrow> cstr s = take n (cstr q)"
proof (induction s arbitrary: n q)
  case Nil
  then show ?case by simp
next
  case (Cons c s)
  show ?case
  proof (cases n)
    case 0
    with Cons.prems show ?thesis by (simp add: cstr_Cons)
  next
    case (Suc n')
    with Cons.prems(3) obtain d q' where q: "q = d # q'" and d: "d \<noteq> NUL"
      and n': "n' \<le> strlen q'"
      by (cases q) (auto simp add: strlen_Cons split: if_splits)
    from Cons.prems(2) Suc q d have cd: "c = d" and t: "take n' s = take n' (cstr q')"
      by (simp_all add: cstr_Cons)
    from Cons.prems(1,4) Suc have "n' \<le> length s" "byte_at s n' = NUL" by simp_all
    from Cons.IH [OF this(1) t n' this(2)] cd d q Suc show ?thesis
      by (simp add: cstr_Cons)
  qed
qed

lemma cstr_prefix_props:
  "length (cstr s) = n \<Longrightarrow> n \<le> length s \<and> take n s = cstr s \<and> byte_at s n = NUL"
proof (induction s arbitrary: n)
  case Nil
  then show ?case by simp
next
  case (Cons c s)
  show ?case
  proof (cases "c = NUL")
    case True
    with Cons.prems show ?thesis by (simp add: cstr_Cons)
  next
    case False
    with Cons.prems obtain n' where n: "n = Suc n'" and l: "length (cstr s) = n'"
      by (cases n) (simp_all add: cstr_Cons)
    from Cons.IH [OF l] n False show ?thesis by (simp add: cstr_Cons)
  qed
qed

lemma name_matches_iff:
  assumes "n \<le> strlen q"
  shows "strncmp s q n = 0 \<and> byte_at s n = NUL \<longleftrightarrow> cstr s = take n (cstr q)"
proof
  assume a: "strncmp s q n = 0 \<and> byte_at s n = NUL"
  with assms have n: "n \<le> length s" and t: "take n s = take n q"
    by (simp_all add: strncmp_zero_iff)
  from t take_cstr [OF assms] have "take n s = take n (cstr q)" by simp
  from cstr_from_prefix [OF n this assms] a show "cstr s = take n (cstr q)" by simp
next
  assume c: "cstr s = take n (cstr q)"
  with assms have len: "length (cstr s) = n" by (simp add: strlen_def)
  from cstr_prefix_props [OF len] c take_cstr [OF assms] assms
  show "strncmp s q n = 0 \<and> byte_at s n = NUL"
    by (simp add: strncmp_zero_iff)
qed

section \<open>The catalog under registrations and removals\<close>

lemma GetPicoByName_result:
  assumes "unat (entryCount m) \<le> length (entries m)"
  shows "\<exists>r. GetPicoByName (Some m) (Some q) = Some r
           \<and> (case r of
                 None \<Rightarrow> \<forall>j<unat (entryCount m).
                           cstr (name (entries m ! j)) \<noteq> take (PICO_NAME_MAX_LENGTH - 1) (cstr q)
               | Some k \<Rightarrow> k < unat (entryCount m)
                   \<and> cstr (name (entries m ! k)) = take (PICO_NAME_MAX_LENGTH - 1) (cstr q)
                   \<and> (\<forall>j<k. cstr (name (entries m ! j))
                               \<noteq> take (PICO_NAME_MAX_LENGTH - 1) (cstr q)))"
proof -
  define n where "n = (if strlen q \<ge> PICO_NAME_MAX_LENGTH then PICO_NAME_MAX_LENGTH - 1
                       else strlen q)"
  have n: "n \<le> strlen q" by (simp add: n_def PICO_NAME_MAX_LENGTH_def)
  have t: "take n (cstr q) = take (PICO_NAME_MAX_LENGTH - 1) (cstr q)"
    by (simp add: n_def PICO_NAME_MAX_LENGTH_def strlen_def)
  have call: "GetPicoByName (Some m) (Some q) = name_loop m q n 0"
    by (simp add: GetPicoByName_def n_def Let_def)
  from name_loop_total [OF assms] obtain r where r: "name_loop m q n 0 = Some r" by blast
  have eq: "(strncmp (name (entries m ! j)) q n = 0 \<and> byte_at (name (entries m ! j)) n = NUL)
              = (cstr (name (entries m ! j)) = take (PICO_NAME_MAX_LENGTH - 1) (cstr q))" for j
    using name_matches_iff [OF n, of "name (entries m ! j)"] t by simp
  note res = name_loop_result [OF r, unfolded eq]
  show ?thesis
  proof (cases r)
    case None
    with res call r show ?thesis by simp
  next
    case (Some k)
    with res have "strncmp (name (entries m ! k)) q n = 0
                   \<and> byte_at (name (entries m ! k)) n = NUL" by simp
    then have "cstr (name (entries m ! k)) = take (PICO_NAME_MAX_LENGTH - 1) (cstr q)"
      by (simp only: eq)
    with Some res call r show ?thesis by simp
  qed
qed

lemma GetPicoByName_index:
  assumes "unat (entryCount m) \<le> length (entries m)"
  shows "GetPicoByName (Some m) (Some q) = Some None
         \<or> (\<exists>k<unat (entryCount m). GetPicoByName (Some m) (Some q) = Some (Some k))"
proof -
  from GetPicoByName_result [OF assms, of q] obtain r where
    "GetPicoByName (Some m) (Some q) = Some r"
    "case r of None \<Rightarrow> True | Some k \<Rightarrow> k < unat (entryCount m)"
    by (auto split: option.splits)
  then show ?thesis by (cases r) auto
qed

lemma of_nat_below_count:
  "k < unat (c :: DWORD) \<Longrightarrow> (of_nat k :: DWORD) < c"
  by (simp add: word_less_nat_alt unat_of_nat_below)

lemma apply_op_catalog_ok:
  assumes ok: "catalog_ok m"
  shows "\<exists>r m' w'. apply_op L x m w = Some (r, m', w') \<and> catalog_ok m'
           \<and> (is_Register x \<longrightarrow>
                unat (entryCount m') = unat (entryCount m) + (if r = TRUE then 1 else 0))"
proof -
  note inv = ok [unfolded catalog_ok_iff]
  from ok have arr: "unat (entryCount m) \<le> length (entries m)" by (rule catalog_ok_array)
  have removal: "\<exists>r m' w'. RemovePicoById (Some m) i w = Some (r, Some m', w') \<and> catalog_ok m'"
    for i
  proof (cases "i < entryCount m")
    case False
    then have "RemovePicoById (Some m) i w = Some (FALSE NotFound, Some m, w)"
      by (intro RemovePicoById_missing) simp
    with ok show ?thesis by simp
  next
    case True
    from RemovePicoById_found [OF True arr, of w] obtain m' where
      m': "RemovePicoById (Some m) i w =
             Some (TRUE, Some m',
               if data (entries m ! unat i) \<noteq> NULL
               then VirtualFree w (data (entries m ! unat i)) else w)"
        "unat (entryCount m') = unat (entryCount m) - 1"
        "entryCapacity m' = entryCapacity m"
        "length (entries m') = length (entries m)"
        "\<forall>j<unat i. entries m' ! j = entries m ! j"
        "\<forall>j. unat i \<le> j \<and> j < unat (entryCount m) - 1
             \<longrightarrow> entries m' ! j = (entries m ! Suc j)\<lparr>pico_id := of_nat j\<rparr>"
      by blast
    have ids: "pico_id (entries m' ! j) = of_nat j" if "j < unat (entryCount m')" for j
    proof (cases "j < unat i")
      case True
      with m'(5) inv that m'(2) show ?thesis by simp
    next
      case False
      with m'(6) that m'(2) show ?thesis by simp
    qed
    from inv m'(2,3) have "entryCount m' \<le> entryCapacity m'"
      by (auto simp add: word_le_nat_alt)
    with ids inv m'(3,4) have "catalog_ok m'" by (simp add: catalog_ok_iff)
    with m'(1) show ?thesis by blast
  qed
  show ?thesis
  proof (cases x)
    case (Register nm v)
    show ?thesis
    proof (cases "v = NULL \<or> nm = None")
      case True
      from AddPico_invalid [OF True, of L m] ok Register show ?thesis by simp
    next
      case False
      then obtain s where s: "nm = Some s" and v: "v \<noteq> NULL" by auto
      show ?thesis
      proof (cases "entryCount m < entryCapacity m")
        case False
        then have "entryCapacity m \<le> entryCount m" by simp
        from AddPico_full [OF this v, of L s] ok Register s show ?thesis by simp
      next
        case True
        with inv have l: "unat (entryCount m) < length (entries m)"
          by (simp add: word_less_nat_alt)
        let ?m' = "m\<lparr>entries := (entries m)
                 [unat (entryCount m) :=
                    (entries m ! unat (entryCount m))
                      \<lparr>pico_id := entryCount m,
                       name := (strncpy (name (entries m ! unat (entryCount m))) s
                                  (PICO_NAME_MAX_LENGTH - 1))
                                 [PICO_NAME_MAX_LENGTH - 1 := NUL],
                       code := NULL,
                       codeSize := scast (PicoCodeSize L v),
                       data := NULL,
                       dataSize := scast (PicoDataSize L v),
                       entryPoint := NULL,
                       vault := v\<rparr>],
               entryCount := entryCount m + 1\<rparr>"
        have call: "AddPico L (Some m) (Some s) v = Some (TRUE, Some ?m')"
          by (rule AddPico_ok [OF v True l])
        from True have c: "unat (entryCount m + 1) = Suc (unat (entryCount m))"
          by (rule unat_Suc_below)
        have ids: "pico_id (entries ?m' ! j) = of_nat j" if "j < unat (entryCount ?m')" for j
        proof (cases "j = unat (entryCount m)")
          case True
          with l show ?thesis by simp
        next
          case False
          with that c inv show ?thesis by simp
        qed
        from True c have "entryCount ?m' \<le> entryCapacity ?m'"
          by (simp add: word_le_nat_alt word_less_nat_alt)
        with ids inv have "catalog_ok ?m'" by (simp add: catalog_ok_iff)
        with call c Register s show ?thesis by simp
      qed
    qed
  next
    case (RemoveById i)
    from removal [of i] RemoveById show ?thesis by auto
  next
    case (RemoveByName nm)
    show ?thesis
    proof (cases nm)
      case None
      with RemoveByName ok show ?thesis by (simp add: RemovePicoByName_def)
    next
      case (Some q)
      from GetPicoByName_index [OF arr, of q]
      show ?thesis
      proof
        assume "GetPicoByName (Some m) (Some q) = Some None"
        with RemoveByName Some ok show ?thesis by (simp add: RemovePicoByName_def)
      next
        assume "\<exists>k<unat (entryCount m). GetPicoByName (Some m) (Some q) = Some (Some k)"
        then obtain k where k: "k < unat (entryCount m)"
          "GetPicoByName (Some m) (Some q) = Some (Some k)" by blast
        from removal [of "of_nat k"] k RemoveByName Some show ?thesis
          by (auto simp add: RemovePicoByName_def)
      qed
    qed
  qed
qed

lemma run_ops_catalog_ok:
  assumes "catalog_ok m"
  shows "\<exists>rs m' w'. run_ops L ops m w = Some (rs, m', w') \<and> catalog_ok m'
           \<and> length rs = length ops
           \<and> (list_all is_Register ops \<longrightarrow>
                unat (entryCount m') = unat (entryCount m) + length (filter (\<lambda>r. r = TRUE) rs))"
  using assms
proof (induction ops arbitrary: m w)
  case Nil
  then show ?case by simp
next
  case (Cons x xs)
  from apply_op_catalog_ok [OF Cons.prems, of L x w] obtain r m1 w1 where
    s: "apply_op L x m w = Some (r, m1, w1)" "catalog_ok m1"
      "is_Register x \<longrightarrow> unat (entryCount m1) = unat (entryCount m) + (if r = TRUE then 1 else 0)"
    by blast
  from Cons.IH [OF s(2), of w1] obtain rs m' w' where
    t: "run_ops L xs m1 w1 = Some (rs, m', w')" "catalog_ok m'" "length rs = length xs"
      "list_all is_Register xs \<longrightarrow>
         unat (entryCount m') = unat (entryCount m1) + length (filter (\<lambda>r. r = TRUE) rs)"
    by blast
  from s t show ?case by simp
qed

section \<open>The example states\<close>

lemma example_initial_eq:
  "example_initial =
     \<lparr>baseAddress = NULL, blockSize = 0, usedSize = 0, entries = replicate 4 zero_entry,
      entryCount = 0, entryCapacity = 4, interPicoPadding = 0\<rparr>"
  by (simp add: example_initial_def PicoManagerInit_def blank_manager_def)

lemma example_libtcg_sizes:
  "PicoCodeSize example_libtcg 1000 = 100" "PicoCodeSize example_libtcg 2000 = 200"
  "PicoCodeSize example_libtcg 3000 = 50"
  by (simp_all add: example_libtcg_def)

lemma example_registered_facts:
  "entryCount example_registered = 3" "interPicoPadding example_registered = 16"
  "entryCapacity example_registered = 4"
  "length (entries example_registered) = 4"
  "baseAddress example_registered = NULL" "usedSize example_registered = 0"
  "codeSize (entries example_registered ! 0) = 100"
  "codeSize (entries example_registered ! Suc 0) = 200"
  "codeSize (entries example_registered ! 2) = 50"
  "code (entries example_registered ! 0) = NULL"
  "code (entries example_registered ! Suc 0) = NULL"
  "code (entries example_registered ! 2) = NULL"
  "vault (entries example_registered ! 0) = 1000"
  "vault (entries example_registered ! Suc 0) = 2000"
  "vault (entries example_registered ! 2) = 3000"
  "dataSize (entries example_registered ! 0) = 8"
  "data (entries example_registered ! 0) = NULL"
  "entryPoint (entries example_registered ! 0) = NULL"
  by (simp_all add: example_registered_def example_ops_def example_fresh_def example_initial_eq
        AddPico_ok NULL_def example_libtcg_sizes example_libtcg_def)

lemma example_allocated_facts:
  "entryCount example_allocated = 3" "interPicoPadding example_allocated = 16"
  "3 \<le> length (entries example_allocated)"
  "codeSize (entries example_allocated ! 0) = 100"
  "codeSize (entries example_allocated ! 1) = 200"
  "codeSize (entries example_allocated ! 2) = 50"
  "code (entries example_allocated ! 0) = NULL"
  "code (entries example_allocated ! 1) = NULL"
  "code (entries example_allocated ! 2) = NULL"
  "vault (entries example_allocated ! 0) \<noteq> NULL"
  "vault (entries example_allocated ! 1) \<noteq> NULL"
  "vault (entries example_allocated ! 2) \<noteq> NULL"
  "baseAddress example_allocated \<noteq> NULL" "blockSize example_allocated = 400"
  "baseAddress example_allocated = 4096" "usedSize example_allocated = 0"
  "data (entries example_allocated ! 0) = NULL"
  "entryPoint (entries example_allocated ! 0) = NULL"
  by (simp_all add: example_allocated_def example_registered_facts NULL_def)

lemma example_undersized_facts:
  "entryCount example_undersized = 3" "interPicoPadding example_undersized = 16"
  "3 \<le> length (entries example_undersized)"
  "codeSize (entries example_undersized ! 0) = 100"
  "codeSize (entries example_undersized ! 1) = 200"
  "codeSize (entries example_undersized ! 2) = 50"
  "code (entries example_undersized ! 0) = NULL"
  "code (entries example_undersized ! 1) = NULL"
  "code (entries example_undersized ! 2) = NULL"
  "vault (entries example_undersized ! 0) \<noteq> NULL"
  "vault (entries example_undersized ! 1) \<noteq> NULL"
  "vault (entries example_undersized ! 2) \<noteq> NULL"
  "baseAddress example_undersized \<noteq> NULL" "blockSize example_undersized = 381"
  "baseAddress example_undersized = 4096" "usedSize example_undersized = 0"
  by (simp_all add: example_undersized_def example_registered_facts NULL_def)

lemma example_world_allocs:
  "alloc_results example_world = 5000 # 6000 # 7000 # []" "(5000 :: ptr) \<noteq> NULL"
  "(6000 :: ptr) \<noteq> NULL" "(7000 :: ptr) \<noteq> NULL"
  by (simp_all add: example_world_def NULL_def)

section \<open>Releasing a region\<close>

lemma VirtualFree_not_live: "\<not> is_live (VirtualFree w p) p"
  by (auto simp: VirtualFree_def is_live_def)

lemma VirtualFree_other: "q \<noteq> p \<Longrightarrow> is_live (VirtualFree w p) q = is_live w q"
  by (force simp: VirtualFree_def is_live_def)

section \<open>Duplication\<close>

declare dup_loop.simps [simp del]

lemma cstr_nonul: "x \<in> set (cstr s) \<Longrightarrow> x \<noteq> NUL"
  by (auto simp: cstr_def dest: set_takeWhileD)

lemma cstr_append_stop:
  assumes "\<And>x. x \<in> set p \<Longrightarrow> x \<noteq> NUL" and "r = [] \<or> hd r = NUL"
  shows "cstr (p @ r) = p"
proof (cases r)
  case Nil
  with assms(1) show ?thesis by (simp add: cstr_def)
next
  case (Cons c r')
  with assms(2) have "c = NUL" by simp
  with Cons assms(1) show ?thesis by (simp add: cstr_def takeWhile_append2)
qed

lemma cstr_stored_name:
  "cstr ((strncpy d s n)[n := NUL]) = take n (cstr s)"
proof (cases "n \<le> length (cstr s)")
  case True
  then have "(strncpy d s n)[n := NUL] = take n (cstr s) @ (drop n d)[0 := NUL]"
    by (simp add: strncpy_def list_update_append min_def)
  moreover have "(drop n d)[0 := NUL] = [] \<or> hd ((drop n d)[0 := NUL]) = NUL"
    by (cases "drop n d") simp_all
  moreover have "x \<noteq> NUL" if "x \<in> set (take n (cstr s))" for x
    using that by (auto dest: in_set_takeD cstr_nonul)
  ultimately show ?thesis by (simp add: cstr_append_stop)
next
  case False
  then have l: "length (cstr s) < n" by simp
  then have "(strncpy d s n)[n := NUL]
               = cstr s @ (replicate (n - length (cstr s)) NUL @ (drop n d)[0 := NUL])"
    by (simp add: strncpy_def list_update_append)
  moreover from l have "hd (replicate (n - length (cstr s)) NUL @ (drop n d)[0 := NUL]) = NUL"
    by (cases "n - length (cstr s)") simp_all
  ultimately show ?thesis using l by (simp add: cstr_append_stop cstr_nonul)
qed

lemma dup_loop_done:
  "\<not> i < unat (entryCount m) \<Longrightarrow> dup_loop L m i n = Some (TRUE, n)"
  by (simp add: dup_loop.simps [of L m i])

lemma dup_loop_skip:
  "i < unat (entryCount m) \<Longrightarrow> i < length (entries m) \<Longrightarrow> vault (entries m ! i) = NULL \<Longrightarrow>
     dup_loop L m i n = dup_loop L m (Suc i) n"
  by (simp add: dup_loop.simps [of L m i] slot_def)

lemma dup_loop_full:
  "i < unat (entryCount m) \<Longrightarrow> i < length (entries m) \<Longrightarrow> vault (entries m ! i) \<noteq> NULL \<Longrightarrow>
   entryCapacity n \<le> entryCount n \<Longrightarrow>
     dup_loop L m i n = Some (FALSE CapacityExceeded, n)"
  by (simp add: dup_loop.simps [of L m i] slot_def AddPico_full)

lemma dup_loop_add:
  "i < unat (entryCount m) \<Longrightarrow> i < length (entries m) \<Longrightarrow> vault (entries m ! i) \<noteq> NULL \<Longrightarrow>
   entryCount n < entryCapacity n \<Longrightarrow> unat (entryCount n) < length (entries n) \<Longrightarrow>
     dup_loop L m i n =
     dup_loop L m (Suc i)
       (n\<lparr>entries := (entries n)
            [unat (entryCount n) :=
               (entries n ! unat (entryCount n))
                 \<lparr>pico_id := entryCount n,
                  name := (strncpy (name (entries n ! unat (entryCount n)))
                             (name (entries m ! i)) (PICO_NAME_MAX_LENGTH - 1))
                            [PICO_NAME_MAX_LENGTH - 1 := NUL],
                  code := NULL,
                  codeSize := scast (PicoCodeSize L (vault (entries m ! i))),
                  data := NULL,
                  dataSize := scast (PicoDataSize L (vault (entries m ! i))),
                  entryPoint := NULL,
                  vault := vault (entries m ! i)\<rparr>],
          entryCount := entryCount n + 1\<rparr>)"
  by (simp add: dup_loop.simps [of L m i] slot_def AddPico_ok)

lemma dup_loop_fault:
  "i < unat (entryCount m) \<Longrightarrow> length (entries m) \<le> i \<Longrightarrow> dup_loop L m i n = None"
  by (simp add: dup_loop.simps [of L m i] slot_def)

lemma dup_loop_fault_new:
  "i < unat (entryCount m) \<Longrightarrow> i < length (entries m) \<Longrightarrow> vault (entries m ! i) \<noteq> NULL \<Longrightarrow>
   entryCount n < entryCapacity n \<Longrightarrow> length (entries n) \<le> unat (entryCount n) \<Longrightarrow>
     dup_loop L m i n = None"
  by (simp add: dup_loop.simps [of L m i] slot_def AddPico_def not_le [symmetric])

lemma drop_take_step:
  "i < c \<Longrightarrow> i < length es \<Longrightarrow> drop i (take c es) = es ! i # drop (Suc i) (take c es)"
  by (metis Cons_nth_drop_Suc length_take min_less_iff_conj nth_take)

lemma dup_loop_result:
  assumes "dup_loop L m i n = Some (r, n')"
  shows "\<exists>t. unat (entryCount n') = unat (entryCount n) + t
      \<and> t \<le> length (filter (\<lambda>e. vault e \<noteq> NULL) (drop i (take (unat (entryCount m)) (entries m))))
      \<and> (\<forall>j<t. registered_from L
                 (filter (\<lambda>e. vault e \<noteq> NULL) (drop i (take (unat (entryCount m)) (entries m))) ! j)
                 (unat (entryCount n) + j) (entries n' ! (unat (entryCount n) + j)))
      \<and> (\<forall>j<unat (entryCount n). entries n' ! j = entries n ! j)
      \<and> length (entries n') = length (entries n)
      \<and> entryCapacity n' = entryCapacity n \<and> baseAddress n' = baseAddress n
      \<and> blockSize n' = blockSize n \<and> usedSize n' = usedSize n
      \<and> interPicoPadding n' = interPicoPadding n
      \<and> (r = TRUE \<longrightarrow>
            t = length (filter (\<lambda>e. vault e \<noteq> NULL)
                         (drop i (take (unat (entryCount m)) (entries m)))))
      \<and> (\<forall>err. r = FALSE err \<longrightarrow> err = CapacityExceeded
            \<and> entryCapacity n' \<le> entryCount n'
            \<and> t < length (filter (\<lambda>e. vault e \<noteq> NULL)
                           (drop i (take (unat (entryCount m)) (entries m)))))"
  using assms
proof (induction L m i n arbitrary: r n' rule: dup_loop.induct)
  case (1 L m i n)
  let ?c = "unat (entryCount m)"
  let ?live = "\<lambda>i. filter (\<lambda>e. vault e \<noteq> NULL) (drop i (take ?c (entries m)))"
  show ?case
  proof (cases "i < ?c")
    case False
    with "1.prems" have "r = TRUE" "n' = n" by (simp_all add: dup_loop_done)
    moreover from False have "?live i = []" by simp
    ultimately show ?thesis by simp
  next
    case c: True
    show ?thesis
    proof (cases "i < length (entries m)")
      case False
      with c "1.prems" show ?thesis by (simp add: dup_loop_fault)
    next
      case l: True
      then have s: "slot (entries m) i = Some (entries m ! i)" by (simp add: slot_def)
      note step = drop_take_step [OF c l]
      show ?thesis
      proof (cases "vault (entries m ! i) = NULL")
        case True
        with c l "1.prems" have run: "dup_loop L m (Suc i) n = Some (r, n')"
          by (simp add: dup_loop_skip)
        from True have nv: "\<not> vault (entries m ! i) \<noteq> NULL" by simp
        from True step have "?live i = ?live (Suc i)" by simp
        with "1.IH"(2) [OF c s nv run] show ?thesis by simp
      next
        case v: False
        with step have lv: "?live i = entries m ! i # ?live (Suc i)" by simp
        show ?thesis
        proof (cases "entryCount n < entryCapacity n")
          case False
          then have "entryCapacity n \<le> entryCount n" by simp
          with c l v "1.prems" have "r = FALSE CapacityExceeded" "n' = n"
            by (simp_all add: dup_loop_full)
          with lv \<open>entryCapacity n \<le> entryCount n\<close> show ?thesis by simp
        next
          case room: True
          show ?thesis
          proof (cases "unat (entryCount n) < length (entries n)")
            case False
            with c l v room "1.prems" show ?thesis by (simp add: dup_loop_fault_new)
          next
            case ln: True
            let ?k = "unat (entryCount n)"
            let ?e = "(entries n ! ?k)
                 \<lparr>pico_id := entryCount n,
                  name := (strncpy (name (entries n ! ?k))
                             (name (entries m ! i)) (PICO_NAME_MAX_LENGTH - 1))
                            [PICO_NAME_MAX_LENGTH - 1 := NUL],
                  code := NULL,
                  codeSize := scast (PicoCodeSize L (vault (entries m ! i))),
                  data := NULL,
                  dataSize := scast (PicoDataSize L (vault (entries m ! i))),
                  entryPoint := NULL,
                  vault := vault (entries m ! i)\<rparr>"
            let ?n1 = "n\<lparr>entries := (entries n)[?k := ?e], entryCount := entryCount n + 1\<rparr>"
            have add: "AddPico L (Some n) (Some (name (entries m ! i))) (vault (entries m ! i))
                         = Some (TRUE, Some ?n1)"
              by (rule AddPico_ok [OF v room ln])
            from c l v room ln "1.prems" have run: "dup_loop L m (Suc i) ?n1 = Some (r, n')"
              by (simp add: dup_loop_add)
            from room have k1: "unat (entryCount ?n1) = Suc ?k"
              by (simp add: unat_Suc_below)
            from "1.IH"(1) [OF c s v add refl refl refl run]
            obtain t where raw: "unat (entryCount n') = unat (entryCount ?n1) + t"
              "t \<le> length (?live (Suc i))"
              "\<forall>j<t. registered_from L (?live (Suc i) ! j) (unat (entryCount ?n1) + j)
                      (entries n' ! (unat (entryCount ?n1) + j))"
              "\<forall>j<unat (entryCount ?n1). entries n' ! j = entries ?n1 ! j"
              "length (entries n') = length (entries ?n1)"
              "entryCapacity n' = entryCapacity ?n1" "baseAddress n' = baseAddress ?n1"
              "blockSize n' = blockSize ?n1" "usedSize n' = usedSize ?n1"
              "interPicoPadding n' = interPicoPadding ?n1"
              "r = TRUE \<longrightarrow> t = length (?live (Suc i))"
              "\<forall>err. r = FALSE err \<longrightarrow> err = CapacityExceeded
                  \<and> entryCapacity n' \<le> entryCount n' \<and> t < length (?live (Suc i))"
              by blast
            from raw(1) k1 have t1: "unat (entryCount n') = Suc ?k + t" by simp
            from raw(3) k1
            have t3: "\<forall>j<t. registered_from L (?live (Suc i) ! j) (Suc ?k + j)
                        (entries n' ! (Suc ?k + j))" by simp
            from raw(4) k1 have t4: "\<forall>j<Suc ?k. entries n' ! j = entries ?n1 ! j" by simp
            from raw(5-10) have t5: "length (entries n') = length (entries n)"
              "entryCapacity n' = entryCapacity n" "baseAddress n' = baseAddress n"
              "blockSize n' = blockSize n" "usedSize n' = usedSize n"
              "interPicoPadding n' = interPicoPadding n"
              by simp_all
            note t = t1 raw(2) t3 t4 t5 raw(11,12)
            from t(4) ln have ek: "entries n' ! ?k = ?e" by simp
            have first: "registered_from L (entries m ! i) ?k (entries n' ! ?k)"
              unfolding ek by (simp add: registered_from_def cstr_stored_name)
            have regs: "registered_from L (?live i ! j) (?k + j) (entries n' ! (?k + j))"
              if "j < Suc t" for j
            proof (cases j)
              case 0
              with first lv show ?thesis by simp
            next
              case (Suc j')
              with that t(3) lv show ?thesis by simp
            qed
            have old: "entries n' ! j = entries n ! j" if "j < ?k" for j
              using t(4) that by simp
            from t regs old lv show ?thesis
              by (intro exI [of _ "Suc t"]) simp
          qed
        qed
      qed
    qed
  qed
qed

lemma PicoManagerAlloc_failed:
  "PicoManagerAlloc (Some n) fp w = Some (FALSE e, n2, w1) \<Longrightarrow>
     e = AllocationFailed \<and> n2 = Some (n\<lparr>baseAddress := NULL\<rparr>) \<and> live w1 = live w"
  by (auto simp: PicoManagerAlloc_def VirtualAlloc_def Let_def
      split: option.splits list.splits if_splits)

lemma total_loop_total:
  "unat (entryCount m) \<le> length (entries m) \<Longrightarrow> \<exists>t. total_loop m i acc = Some t"
proof (induction m i acc rule: total_loop.induct)
  case (1 m i acc)
  show ?case
  proof (cases "i < unat (entryCount m)")
    case False
    then show ?thesis by (simp add: total_loop_done)
  next
    case True
    with "1.prems" have l: "i < length (entries m)" by simp
    then have s: "slot (entries m) i = Some (entries m ! i)" by (simp add: slot_def)
    show ?thesis
    proof (cases "vault (entries m ! i) = NULL")
      case v: True
      from "1.IH"(1) [OF True s v "1.prems"] True l v show ?thesis
        by (simp add: total_loop_skip)
    next
      case v: False
      from "1.IH"(2) [OF True s v refl refl "1.prems"] True l v show ?thesis
        by (simp add: total_loop_add)
    qed
  qed
qed

lemma PicoManagerAlloc_refused:
  assumes "unat (entryCount n) \<le> length (entries n)" and "alloc_results w = []"
  shows "PicoManagerAlloc (Some n) fp w
           = Some (FALSE AllocationFailed, Some (n\<lparr>baseAddress := NULL\<rparr>), w)"
proof -
  from total_loop_total [OF assms(1), of 0 0] obtain t where "total_loop n 0 0 = Some t" by blast
  with assms(2) show ?thesis
    by (simp add: PicoManagerAlloc_def TotalCodeSize_def VirtualAlloc_def Let_def)
qed

lemma example_registered_third:
  "vault (entries example_registered ! Suc (Suc 0)) = 3000"
  using example_registered_facts by (simp add: numeral_2_eq_2 [symmetric])

lemma example_duplicate_small:
  "\<exists>n. DuplicateManager example_libtcg (Some example_registered) (Some blank_manager)
          (Some (replicate 2 zero_entry)) 2 (Some 77) example_world
        = Some (FALSE CapacityExceeded, Some n, Some 77, example_world)"
  by (simp add: DuplicateManager_def PicoManagerInit_def dup_loop_add dup_loop_full
        example_registered_facts example_registered_third NULL_def)

lemma example_duplicate_refused:
  "\<exists>n. DuplicateManager example_libtcg (Some example_registered) (Some blank_manager)
          (Some (replicate 4 zero_entry)) 4 (Some 77) example_refusing_world
        = Some (FALSE AllocationFailed, Some n, Some 77, example_refusing_world)"
proof -
  let ?n0 = "blank_manager\<lparr>baseAddress := NULL, blockSize := 0, usedSize := 0,
               entries := replicate 4 zero_entry, entryCount := 0, entryCapacity := 4,
               interPicoPadding := interPicoPadding example_registered\<rparr>"
  have "\<exists>n3. dup_loop example_libtcg example_registered 0 ?n0 = Some (TRUE, n3)
           \<and> unat (entryCount n3) \<le> length (entries n3)"
    by (simp add: dup_loop_add dup_loop_done example_registered_facts example_registered_third
          NULL_def)
  then obtain n3 where d: "dup_loop example_libtcg example_registered 0 ?n0 = Some (TRUE, n3)"
    and l: "unat (entryCount n3) \<le> length (entries n3)" by blast
  have r: "alloc_results example_refusing_world = []"
    by (simp add: example_refusing_world_def)
  show ?thesis
    by (simp add: DuplicateManager_def PicoManagerInit_def d
          PicoManagerAlloc_refused [OF l r])
qed

section \<open>The example of three modules\<close>

text \<open>
  Claim C1, as the code has it. A manager holds three registered, unplaced modules with
  code sizes 100, 200 and 50 and a padding of 16. \<open>TotalCodeSize\<close> returns 382. With a
  region of 400 bytes, and a \<open>VirtualAlloc\<close> that grants the three data regions,
  \<open>LoadPico\<close> with the boundary \<open>(DWORD)-1\<close> and no final padding returns \<open>TRUE\<close> and
  places the code of the modules at the offsets 0, 116 and 332 of the region. It leaves
  \<open>usedSize = 398\<close>: the offset advances by the code size and the padding after every
  module, the last one too.
\<close>

theorem load_three_modules_layout:
  fixes m :: PICO_MANAGER
  assumes "entryCount m = 3" "interPicoPadding m = 16" "3 \<le> length (entries m)"
    and "codeSize (entries m ! 0) = 100" "codeSize (entries m ! 1) = 200"
      "codeSize (entries m ! 2) = 50"
    and "code (entries m ! 0) = NULL" "code (entries m ! 1) = NULL"
      "code (entries m ! 2) = NULL"
    and "vault (entries m ! 0) \<noteq> NULL" "vault (entries m ! 1) \<noteq> NULL"
      "vault (entries m ! 2) \<noteq> NULL"
    and "baseAddress m \<noteq> NULL" "blockSize m = 400"
    and "alloc_results w = dA # dB # dC # rest" "dA \<noteq> NULL" "dB \<noteq> NULL" "dC \<noteq> NULL"
  shows "TotalCodeSize (Some m) = Some 382
         \<and> (\<exists>m' w'. LoadPico L (Some m) ALL_ENTRIES 0 funcs w = Some (TRUE, Some m', w')
               \<and> code (entries m' ! 0) = baseAddress m
               \<and> code (entries m' ! 1) = baseAddress m + 116
               \<and> code (entries m' ! 2) = baseAddress m + 332
               \<and> usedSize m' = 398)"
proof -
  have "TotalCodeSize (Some m) = Some 382"
    using assms(1-6,10-12) by (rule total_three)
  moreover from load_three [OF assms, of L funcs]
  have "\<exists>m' w'. LoadPico L (Some m) ALL_ENTRIES 0 funcs w = Some (TRUE, Some m', w')
               \<and> code (entries m' ! 0) = baseAddress m
               \<and> code (entries m' ! 1) = baseAddress m + 116
               \<and> code (entries m' ! 2) = baseAddress m + 332
               \<and> usedSize m' = 398"
    by blast
  ultimately show ?thesis by simp
qed

theorem load_three_modules_layout_witness:
  "TotalCodeSize (Some example_allocated) = Some 382
   \<and> (\<exists>m' w'. LoadPico example_libtcg (Some example_allocated) ALL_ENTRIES 0 99 example_world
                  = Some (TRUE, Some m', w')
          \<and> code (entries m' ! 0) = 4096
          \<and> code (entries m' ! 1) = 4096 + 116
          \<and> code (entries m' ! 2) = 4096 + 332
          \<and> usedSize m' = 398)"
  using load_three_modules_layout
    [OF example_allocated_facts(1-14) example_world_allocs, of example_libtcg 99]
  by (simp only: example_allocated_facts(15))

text \<open>
  Claim C1 as stated has \<open>usedSize = 382\<close>. In the example built by \<open>PicoManagerInit\<close>
  and three calls of \<open>AddPico\<close> the load leaves 398.
\<close>

theorem load_three_modules_usedSize_counterexample:
  "used_after (LoadPico example_libtcg (Some example_allocated) ALL_ENTRIES 0 99 example_world)
     = Some 398
   \<and> used_after (LoadPico example_libtcg (Some example_allocated) ALL_ENTRIES 0 99 example_world)
     \<noteq> Some 382"
proof -
  from load_three [OF example_allocated_facts(1-14) example_world_allocs, of example_libtcg 99]
  obtain m' w' where
    "LoadPico example_libtcg (Some example_allocated) ALL_ENTRIES 0 99 example_world
       = Some (TRUE, Some m', w')" "usedSize m' = 398"
    by blast
  then show ?thesis by (simp add: used_after_def)
qed
section \<open>A load that runs out of space\<close>

text \<open>
  Claim C2. When \<open>LoadPico\<close> returns \<open>FALSE\<close> at its space check, there is a position
  \<open>k\<close>, unplaced and with a vault, whose code with the padding and the final padding
  does not fit after the running offset. The manager and the world that the call leaves
  are exactly those that the loop reaches after the positions below \<open>k\<close>: every module
  below \<open>k\<close> that was unplaced and had a vault keeps the code placement, the data region
  and the entry point that the call gave it, every other position below \<open>k\<close> and every
  position from \<open>k\<close> on is as before, and \<open>usedSize\<close> has its value from before the
  call.
\<close>

theorem LoadPico_insufficient_space:
  assumes "LoadPico L (Some m) upToEntryId finalPadding funcs w
             = Some (FALSE InsufficientSpace, r)"
  shows "\<exists>m' w' k off. r = (Some m', w') \<and> usedSize m' = usedSize m
           \<and> k < unat (entryCount m)
           \<and> load_loop L funcs finalPadding (of_nat k) 0 0 m w = Some (TRUE, off, m', w')
           \<and> code (entries m' ! k) = NULL \<and> vault (entries m' ! k) \<noteq> NULL
           \<and> blockSize m
                < off + (codeSize (entries m' ! k) + interPicoPadding m) + finalPadding
           \<and> (\<forall>j<k. code (entries m ! j) = NULL \<and> vault (entries m ! j) \<noteq> NULL
                  \<longrightarrow> (\<exists>c d. d \<noteq> NULL
                         \<and> entries m' ! j =
                             (entries m ! j)\<lparr>code := c, data := d,
                                entryPoint := PicoEntryPoint L (vault (entries m ! j)) c\<rparr>))
           \<and> (\<forall>j<k. code (entries m ! j) \<noteq> NULL \<or> vault (entries m ! j) = NULL
                  \<longrightarrow> entries m' ! j = entries m ! j)
           \<and> (\<forall>j\<ge>k. entries m' ! j = entries m ! j)"
proof -
  let ?B = "if upToEntryId = ALL_ENTRIES then entryCount m else upToEntryId + 1"
  from assms have alloc: "baseAddress m \<noteq> NULL" "blockSize m \<noteq> 0"
    by (auto simp: LoadPico_def split: if_splits)
  from assms alloc obtain off m' w' where
    run: "load_loop L funcs finalPadding ?B 0 0 m w = Some (FALSE InsufficientSpace, off, m', w')"
    and r: "r = (Some m', w')"
    by (auto simp: LoadPico_def Let_def split: option.splits BOOL.splits)
  note fr = load_loop_frame [OF run]
  from load_loop_nospace_prefix [OF run] obtain k where
    k: "k < unat (entryCount m)"
      "load_loop L funcs finalPadding (of_nat k) 0 0 m w = Some (TRUE, off, m', w')"
      "code (entries m' ! k) = NULL" "vault (entries m' ! k) \<noteq> NULL"
      "blockSize m' < off + (codeSize (entries m' ! k) + interPicoPadding m') + finalPadding"
    by blast
  from k(1) have uk: "unat (of_nat k :: DWORD) = k" by (rule unat_of_nat_below)
  have placed: "\<exists>c d. d \<noteq> NULL
                  \<and> entries m' ! j =
                      (entries m ! j)\<lparr>code := c, data := d,
                         entryPoint := PicoEntryPoint L (vault (entries m ! j)) c\<rparr>"
    if "j < k" "code (entries m ! j) = NULL \<and> vault (entries m ! j) \<noteq> NULL" for j
    using load_loop_progress [OF k(2), of j] that k(1) uk by simp
  have kept: "entries m' ! j = entries m ! j"
    if "j < k" "code (entries m ! j) \<noteq> NULL \<or> vault (entries m ! j) = NULL" for j
    using load_loop_progress [OF k(2), of j] that k(1) uk by auto
  have rest: "entries m' ! j = entries m ! j" if "k \<le> j" for j
    using load_loop_frame [OF k(2)] that uk by simp
  from r fr k placed kept rest show ?thesis
    by (intro exI [of _ m'] exI [of _ w'] exI [of _ k] exI [of _ off]) simp
qed

theorem LoadPico_insufficient_space_witness:
  "\<exists>r. LoadPico example_libtcg (Some example_undersized) ALL_ENTRIES 0 99 example_world
          = Some (FALSE InsufficientSpace, r)
     \<and> (\<exists>m' w' k off. r = (Some m', w') \<and> usedSize m' = usedSize example_undersized
           \<and> k < unat (entryCount example_undersized)
           \<and> load_loop example_libtcg 99 0 (of_nat k) 0 0 example_undersized example_world
                = Some (TRUE, off, m', w')
           \<and> code (entries m' ! k) = NULL \<and> vault (entries m' ! k) \<noteq> NULL
           \<and> blockSize example_undersized
                < off + (codeSize (entries m' ! k) + interPicoPadding example_undersized) + 0
           \<and> code (entries m' ! 0) = 4096 \<and> data (entries m' ! 0) = 5000)"
proof -
  from load_three_undersized
    [OF example_undersized_facts(1-14) example_world_allocs(1-3), of example_libtcg 99]
  obtain m0 w0 where
    r: "LoadPico example_libtcg (Some example_undersized) ALL_ENTRIES 0 99 example_world
          = Some (FALSE InsufficientSpace, Some m0, w0)"
      "code (entries m0 ! 0) = baseAddress example_undersized" "data (entries m0 ! 0) = 5000"
    by blast
  from LoadPico_insufficient_space [OF r(1)] obtain m' w' k off where
    t: "(Some m0, w0) = (Some m', w')" "usedSize m' = usedSize example_undersized"
      "k < unat (entryCount example_undersized)"
      "load_loop example_libtcg 99 0 (of_nat k) 0 0 example_undersized example_world
                = Some (TRUE, off, m', w')"
      "code (entries m' ! k) = NULL" "vault (entries m' ! k) \<noteq> NULL"
      "blockSize example_undersized
         < off + (codeSize (entries m' ! k) + interPicoPadding example_undersized) + 0"
    by blast
  from t(1) have eq: "m' = m0" "w' = w0" by simp_all
  from r(2,3) eq example_undersized_facts(15)
  have c: "code (entries m' ! 0) = 4096" "data (entries m' ! 0) = 5000" by simp_all
  have "\<exists>m' w' k off. (Some m0, w0) = (Some m', w') \<and> usedSize m' = usedSize example_undersized
           \<and> k < unat (entryCount example_undersized)
           \<and> load_loop example_libtcg 99 0 (of_nat k) 0 0 example_undersized example_world
                = Some (TRUE, off, m', w')
           \<and> code (entries m' ! k) = NULL \<and> vault (entries m' ! k) \<noteq> NULL
           \<and> blockSize example_undersized
                < off + (codeSize (entries m' ! k) + interPicoPadding example_undersized) + 0
           \<and> code (entries m' ! 0) = 4096 \<and> data (entries m' ! 0) = 5000"
    using t c by (intro exI [of _ m'] exI [of _ w'] exI [of _ k] exI [of _ off] conjI)
  with r(1) show ?thesis by (intro exI [of _ "(Some m0, w0)"] conjI)
qed
section \<open>A load whose data allocation fails\<close>

text \<open>
  Claim C3 says that an entry has a code placement only once its load phase is complete.
  \<open>LoadPico\<close> assigns \<open>code\<close> before it asks for the data region. In the example of
  three registered modules with a region of 400 bytes, when \<open>VirtualAlloc\<close> refuses the
  first data region the call returns \<open>FALSE\<close> and leaves the first entry with
  \<open>code = 4096\<close>, no data region, no entry point and no \<open>PicoLoad\<close> call. A later
  call, with memory available, takes the entry for a loaded one and returns \<open>TRUE\<close>
  without loading it.
\<close>

theorem LoadPico_allocation_failure_leaves_code_set:
  "LoadPico example_libtcg (Some example_allocated) ALL_ENTRIES 0 99 example_refusing_world
     = Some (FALSE AllocationFailed, Some example_half_placed, example_refusing_world)
   \<and> code (entries example_half_placed ! 0) = 4096
   \<and> code (entries example_half_placed ! 0) \<noteq> NULL
   \<and> data (entries example_half_placed ! 0) = NULL
   \<and> entryPoint (entries example_half_placed ! 0) = NULL
   \<and> pico_loads example_refusing_world = []
   \<and> LoadPico example_libtcg (Some example_half_placed) 0 0 99 example_world
       = Some (TRUE, Some (example_half_placed\<lparr>usedSize := 116\<rparr>), example_world)"
proof -
  note f = example_allocated_facts
  from f(3) have len: "0 < length (entries example_allocated)" by auto
  have va: "VirtualAlloc example_refusing_world (dataSize (entries example_allocated ! 0))
              PAGE_READWRITE = (NULL, example_refusing_world)"
    by (simp add: VirtualAlloc_def example_refusing_world_def)
  have "load_loop example_libtcg 99 0 3 0 0 example_allocated example_refusing_world
          = Some (FALSE AllocationFailed, 0, example_half_placed, example_refusing_world)"
    using f len
    by (subst load_loop_allocfail [OF _ _ _ _ _ _ va]) (simp_all add: example_half_placed_def)
  then have a: "LoadPico example_libtcg (Some example_allocated) ALL_ENTRIES 0 99
                  example_refusing_world
     = Some (FALSE AllocationFailed, Some example_half_placed, example_refusing_world)"
    using f by (simp add: LoadPico_def ALL_ENTRIES_def)
  have h: "entryCount example_half_placed = 3" "baseAddress example_half_placed = 4096"
    "blockSize example_half_placed = 400" "interPicoPadding example_half_placed = 16"
    "0 < length (entries example_half_placed)"
    "code (entries example_half_placed ! 0) = 4096"
    "data (entries example_half_placed ! 0) = NULL"
    "codeSize (entries example_half_placed ! 0) = 100"
    "entryPoint (entries example_half_placed ! 0) = NULL"
    using f len
    by (simp_all add: example_half_placed_def NULL_def)
  have s0: "load_loop example_libtcg 99 0 1 0 0 example_half_placed example_world
          = load_loop example_libtcg 99 0 1 (Suc 0) 116 example_half_placed example_world"
    using h by (subst load_loop_loaded) (simp_all add: NULL_def)
  have s1: "load_loop example_libtcg 99 0 1 (Suc 0) 116 example_half_placed example_world
          = Some (TRUE, 116, example_half_placed, example_world)"
    by (rule load_loop_done) simp
  from s0 s1 h have b: "LoadPico example_libtcg (Some example_half_placed) 0 0 99 example_world
       = Some (TRUE, Some (example_half_placed\<lparr>usedSize := 116\<rparr>), example_world)"
    by (simp add: LoadPico_def ALL_ENTRIES_def NULL_def)
  from a b h show ?thesis
    by (simp add: example_refusing_world_def NULL_def)
qed
section \<open>The total code size with an empty last position\<close>

text \<open>
  Claim C4 says that \<open>TotalCodeSize\<close> adds one padding for each adjacent pair of entries
  with a vault and none after the last of them. The code adds the padding at every
  position but the last of the catalog: for a catalog of two positions, the first with a
  vault and a code size of 100, the second without a vault, and a padding of 16, it
  returns 116, where the claim has 100.
\<close>

theorem TotalCodeSize_pads_after_last_live_entry:
  "TotalCodeSize (Some example_trailing_empty) = Some 116
   \<and> vault (entries example_trailing_empty ! 0) \<noteq> NULL
   \<and> codeSize (entries example_trailing_empty ! 0) = 100
   \<and> vault (entries example_trailing_empty ! 1) = NULL
   \<and> entryCount example_trailing_empty = 2
   \<and> interPicoPadding example_trailing_empty = 16"
proof -
  have f: "entryCount example_trailing_empty = 2" "interPicoPadding example_trailing_empty = 16"
    "length (entries example_trailing_empty) = 2"
    "vault (entries example_trailing_empty ! 0) \<noteq> NULL"
    "codeSize (entries example_trailing_empty ! 0) = 100"
    "vault (entries example_trailing_empty ! Suc 0) = NULL"
    by (simp_all add: example_trailing_empty_def NULL_def zero_entry_def)
  have s0: "total_loop example_trailing_empty 0 0 = total_loop example_trailing_empty (Suc 0) 116"
    using f by (subst total_loop_add) simp_all
  have s1: "total_loop example_trailing_empty (Suc 0) 116 = total_loop example_trailing_empty 2 116"
    using f by (subst total_loop_skip) (simp_all add: numeral_2_eq_2 [symmetric])
  have s2: "total_loop example_trailing_empty 2 116 = Some 116"
    using f by (subst total_loop_done) simp_all
  from s0 s1 s2 f show ?thesis by (simp add: TotalCodeSize_def)
qed
section \<open>Lookup by name\<close>

text \<open>
  Claim C5, as the code has it. \<open>GetPicoByName\<close> cuts the query to its first
  \<open>PICO_NAME_MAX_LENGTH - 1\<close> = 31 characters and compares the stored name with that: it
  returns the first position, in the order of the catalog, whose stored name equals the
  truncated query, and no entry when there is none. A query shorter than
  \<open>PICO_NAME_MAX_LENGTH\<close> is its own truncation, so for such a query the match is exact
  in length and content. The array holds the occupied positions.
\<close>

theorem GetPicoByName_truncated_match:
  assumes "unat (entryCount m) \<le> length (entries m)"
  shows "\<exists>r. GetPicoByName (Some m) (Some q) = Some r
           \<and> (case r of
                 None \<Rightarrow> \<forall>j<unat (entryCount m).
                           cstr (name (entries m ! j)) \<noteq> take (PICO_NAME_MAX_LENGTH - 1) (cstr q)
               | Some k \<Rightarrow> k < unat (entryCount m)
                   \<and> cstr (name (entries m ! k)) = take (PICO_NAME_MAX_LENGTH - 1) (cstr q)
                   \<and> (\<forall>j<k. cstr (name (entries m ! j))
                               \<noteq> take (PICO_NAME_MAX_LENGTH - 1) (cstr q)))
           \<and> (strlen q < PICO_NAME_MAX_LENGTH
                \<longrightarrow> take (PICO_NAME_MAX_LENGTH - 1) (cstr q) = cstr q)"
proof -
  have "strlen q < PICO_NAME_MAX_LENGTH
          \<longrightarrow> take (PICO_NAME_MAX_LENGTH - 1) (cstr q) = cstr q"
    by (simp add: strlen_def)
  with GetPicoByName_result [OF assms, of q] show ?thesis by blast
qed

theorem GetPicoByName_truncated_match_witness:
  "unat (entryCount example_registered) \<le> length (entries example_registered)
   \<and> (\<exists>r. GetPicoByName (Some example_registered) (Some ''B'') = Some r
           \<and> (case r of
                 None \<Rightarrow> \<forall>j<unat (entryCount example_registered).
                           cstr (name (entries example_registered ! j))
                             \<noteq> take (PICO_NAME_MAX_LENGTH - 1) (cstr ''B'')
               | Some k \<Rightarrow> k < unat (entryCount example_registered)
                   \<and> cstr (name (entries example_registered ! k))
                       = take (PICO_NAME_MAX_LENGTH - 1) (cstr ''B'')
                   \<and> (\<forall>j<k. cstr (name (entries example_registered ! j))
                               \<noteq> take (PICO_NAME_MAX_LENGTH - 1) (cstr ''B'')))
           \<and> take (PICO_NAME_MAX_LENGTH - 1) (cstr ''B'') = cstr ''B'')"
proof -
  have h: "unat (entryCount example_registered) \<le> length (entries example_registered)"
    by (simp add: example_registered_facts)
  have s: "strlen ''B'' < PICO_NAME_MAX_LENGTH"
    by (simp add: strlen_def cstr_def NUL_def PICO_NAME_MAX_LENGTH_def)
  from GetPicoByName_truncated_match [OF h, of "''B''"] h s show ?thesis by blast
qed

text \<open>
  Claim C5 as stated fails for a query of 32 characters or more: the query of 32 letters
  \<open>a\<close> finds the entry registered under 31 letters \<open>a\<close>, whose stored name is not the
  query.
\<close>

theorem GetPicoByName_long_query_counterexample:
  "GetPicoByName (Some example_long_named) (Some (replicate 32 CHR ''a'')) = Some (Some 0)
   \<and> cstr (name (entries example_long_named ! 0)) \<noteq> cstr (replicate 32 CHR ''a'')"
  by code_simp
section \<open>Loading twice\<close>



section \<open>Removal by position\<close>

text \<open>
  Claim C7. In a manager whose array holds its \<open>n\<close> occupied positions, removing the
  position \<open>k < n\<close> returns \<open>TRUE\<close>: the count becomes \<open>n - 1\<close>, the positions below
  \<open>k\<close> keep their entries, each position \<open>j\<close> from \<open>k\<close> to \<open>n - 2\<close> holds the entry
  that was at \<open>j + 1\<close> with its \<open>id\<close> set to \<open>j\<close>, the position \<open>n - 1\<close> is zeroed, and
  the slots from \<open>n\<close> on and the other fields of the manager stay. When the removed entry
  had a data region, that region and no other is released; otherwise the world stays.
  For \<open>k \<ge> n\<close> the call returns \<open>FALSE\<close> (not found) and changes nothing.
\<close>

theorem RemovePicoById_compacts:
  assumes "unat (entryCount m) \<le> length (entries m)"
  shows "(id' < entryCount m \<longrightarrow>
           (\<exists>m' w'. RemovePicoById (Some m) id' w = Some (TRUE, Some m', w')
              \<and> entryCount m' = entryCount m - 1
              \<and> unat (entryCount m') = unat (entryCount m) - 1
              \<and> entryCapacity m' = entryCapacity m \<and> baseAddress m' = baseAddress m
              \<and> blockSize m' = blockSize m \<and> usedSize m' = usedSize m
              \<and> interPicoPadding m' = interPicoPadding m
              \<and> length (entries m') = length (entries m)
              \<and> (\<forall>j<unat id'. entries m' ! j = entries m ! j)
              \<and> (\<forall>j. unat id' \<le> j \<and> j < unat (entryCount m) - 1
                     \<longrightarrow> entries m' ! j = (entries m ! Suc j)\<lparr>pico_id := of_nat j\<rparr>)
              \<and> entries m' ! (unat (entryCount m) - 1) = zero_entry
              \<and> (\<forall>j\<ge>unat (entryCount m). entries m' ! j = entries m ! j)
              \<and> (data (entries m ! unat id') = NULL \<longrightarrow> w' = w)
              \<and> (data (entries m ! unat id') \<noteq> NULL \<longrightarrow>
                    w' = VirtualFree w (data (entries m ! unat id'))
                    \<and> \<not> is_live w' (data (entries m ! unat id'))
                    \<and> (\<forall>p. p \<noteq> data (entries m ! unat id') \<longrightarrow> is_live w' p = is_live w p))))
       \<and> (entryCount m \<le> id' \<longrightarrow>
             RemovePicoById (Some m) id' w = Some (FALSE NotFound, Some m, w))"
proof (intro conjI impI)
  assume "id' < entryCount m"
  from RemovePicoById_found [OF this assms, of w] obtain m' where
    m': "RemovePicoById (Some m) id' w =
            Some (TRUE, Some m',
              if data (entries m ! unat id') \<noteq> NULL
              then VirtualFree w (data (entries m ! unat id')) else w)"
      "entryCount m' = entryCount m - 1"
      "unat (entryCount m') = unat (entryCount m) - 1"
      "entryCapacity m' = entryCapacity m" "baseAddress m' = baseAddress m"
      "blockSize m' = blockSize m" "usedSize m' = usedSize m"
      "interPicoPadding m' = interPicoPadding m"
      "length (entries m') = length (entries m)"
      "\<forall>j<unat id'. entries m' ! j = entries m ! j"
      "\<forall>j. unat id' \<le> j \<and> j < unat (entryCount m) - 1
                 \<longrightarrow> entries m' ! j = (entries m ! Suc j)\<lparr>pico_id := of_nat j\<rparr>"
      "entries m' ! (unat (entryCount m) - 1) = zero_entry"
      "\<forall>j\<ge>unat (entryCount m). entries m' ! j = entries m ! j"
    by blast
  let ?w' = "if data (entries m ! unat id') \<noteq> NULL
             then VirtualFree w (data (entries m ! unat id')) else w"
  have w1: "data (entries m ! unat id') = NULL \<longrightarrow> ?w' = w" by simp
  have w2: "data (entries m ! unat id') \<noteq> NULL \<longrightarrow>
                    ?w' = VirtualFree w (data (entries m ! unat id'))
                    \<and> \<not> is_live ?w' (data (entries m ! unat id'))
                    \<and> (\<forall>p. p \<noteq> data (entries m ! unat id') \<longrightarrow> is_live ?w' p = is_live w p)"
    by (simp add: VirtualFree_not_live VirtualFree_other)
  from m' w1 w2
  show "\<exists>m' w'. RemovePicoById (Some m) id' w = Some (TRUE, Some m', w')
              \<and> entryCount m' = entryCount m - 1
              \<and> unat (entryCount m') = unat (entryCount m) - 1
              \<and> entryCapacity m' = entryCapacity m \<and> baseAddress m' = baseAddress m
              \<and> blockSize m' = blockSize m \<and> usedSize m' = usedSize m
              \<and> interPicoPadding m' = interPicoPadding m
              \<and> length (entries m') = length (entries m)
              \<and> (\<forall>j<unat id'. entries m' ! j = entries m ! j)
              \<and> (\<forall>j. unat id' \<le> j \<and> j < unat (entryCount m) - 1
                     \<longrightarrow> entries m' ! j = (entries m ! Suc j)\<lparr>pico_id := of_nat j\<rparr>)
              \<and> entries m' ! (unat (entryCount m) - 1) = zero_entry
              \<and> (\<forall>j\<ge>unat (entryCount m). entries m' ! j = entries m ! j)
              \<and> (data (entries m ! unat id') = NULL \<longrightarrow> w' = w)
              \<and> (data (entries m ! unat id') \<noteq> NULL \<longrightarrow>
                    w' = VirtualFree w (data (entries m ! unat id'))
                    \<and> \<not> is_live w' (data (entries m ! unat id'))
                    \<and> (\<forall>p. p \<noteq> data (entries m ! unat id') \<longrightarrow> is_live w' p = is_live w p))"
    by (intro exI [of _ m'] exI [of _ ?w'] conjI) assumption+
next
  assume "entryCount m \<le> id'"
  then show "RemovePicoById (Some m) id' w = Some (FALSE NotFound, Some m, w)"
    by (rule RemovePicoById_missing)
qed

theorem RemovePicoById_compacts_witness:
  "unat (entryCount example_loaded) \<le> length (entries example_loaded)
   \<and> (0 :: DWORD) < entryCount example_loaded
   \<and> (\<exists>m' w'. RemovePicoById (Some example_loaded) 0 example_loaded_world
                  = Some (TRUE, Some m', w')
          \<and> unat (entryCount m') = 1
          \<and> entries m' ! 0 = (entries example_loaded ! 1)\<lparr>pico_id := 0\<rparr>
          \<and> entries m' ! 1 = zero_entry
          \<and> is_live example_loaded_world 5000 \<and> \<not> is_live w' 5000 \<and> is_live w' 6000)
   \<and> entryCount example_loaded \<le> 2
   \<and> RemovePicoById (Some example_loaded) 2 example_loaded_world
        = Some (FALSE NotFound, Some example_loaded, example_loaded_world)"
proof -
  have h: "unat (entryCount example_loaded) \<le> length (entries example_loaded)"
    by (simp add: example_loaded_def)
  have c: "(0 :: DWORD) < entryCount example_loaded" "entryCount example_loaded \<le> 2"
    "unat (entryCount example_loaded) = 2"
    by (simp_all add: example_loaded_def)
  have d: "data (entries example_loaded ! unat (0 :: DWORD)) = 5000"
    by (simp add: example_loaded_def)
  have l: "is_live example_loaded_world 5000" "is_live example_loaded_world 6000"
    by (simp_all add: is_live_def example_loaded_world_def)
  note thm0 = RemovePicoById_compacts [OF h, of 0 example_loaded_world]
  note thm2 = RemovePicoById_compacts [OF h, of 2 example_loaded_world]
  from thm0 c(1) obtain m' w' where
    r: "RemovePicoById (Some example_loaded) 0 example_loaded_world = Some (TRUE, Some m', w')"
      "unat (entryCount m') = unat (entryCount example_loaded) - 1"
      "\<forall>j. unat (0 :: DWORD) \<le> j \<and> j < unat (entryCount example_loaded) - 1
           \<longrightarrow> entries m' ! j = (entries example_loaded ! Suc j)\<lparr>pico_id := of_nat j\<rparr>"
      "entries m' ! (unat (entryCount example_loaded) - 1) = zero_entry"
      "data (entries example_loaded ! unat (0 :: DWORD)) \<noteq> NULL \<longrightarrow>
         w' = VirtualFree example_loaded_world (data (entries example_loaded ! unat (0 :: DWORD)))
         \<and> \<not> is_live w' (data (entries example_loaded ! unat (0 :: DWORD)))
         \<and> (\<forall>p. p \<noteq> data (entries example_loaded ! unat (0 :: DWORD))
                \<longrightarrow> is_live w' p = is_live example_loaded_world p)"
    by blast
  from r(3) c(3) have e0: "entries m' ! 0 = (entries example_loaded ! 1)\<lparr>pico_id := 0\<rparr>"
    by simp
  from r(4) c(3) have e1: "entries m' ! 1 = zero_entry" by simp
  from r(5) d have f: "\<not> is_live w' 5000"
    "\<forall>p. p \<noteq> 5000 \<longrightarrow> is_live w' p = is_live example_loaded_world p"
    by (auto simp add: NULL_def)
  from f(2) have "is_live w' 6000 = is_live example_loaded_world 6000" by simp
  with f(1) l have lv: "\<not> is_live w' 5000" "is_live w' 6000" by simp_all
  from thm2 c(2)
  have nf: "RemovePicoById (Some example_loaded) 2 example_loaded_world
        = Some (FALSE NotFound, Some example_loaded, example_loaded_world)" by blast
  from h c r(1,2) e0 e1 l lv nf show ?thesis by simp
qed
section \<open>The catalog invariant\<close>

text \<open>
  Claim C8. From a manager that \<open>PicoManagerInit\<close> has set up over an array of at least
  \<open>entryCapacity\<close> slots, every sequence of registrations and removals (by position or by
  name) runs without leaving the array and ends in a manager whose count is at most the
  capacity and whose every occupied position \<open>i\<close> has \<open>id = i\<close>. The sequence is
  arbitrary, so this holds after each of its operations. When the sequence has
  registrations only, the count is the number of calls that returned \<open>TRUE\<close>.
\<close>

theorem catalog_invariant_preserved:
  assumes "PicoManagerInit (Some m0) es cap = Some m1" and "unat cap \<le> length es"
  shows "\<exists>rs m w'. run_ops L ops m1 w = Some (rs, m, w')
           \<and> entryCount m \<le> entryCapacity m
           \<and> (\<forall>i<unat (entryCount m). pico_id (entries m ! i) = of_nat i)
           \<and> (list_all is_Register ops \<longrightarrow>
                unat (entryCount m) = length (filter (\<lambda>r. r = TRUE) rs))"
proof -
  from assms have m1: "entryCount m1 = 0" "entryCapacity m1 = cap" "entries m1 = es"
    by (auto simp: PicoManagerInit_def)
  with assms(2) have "catalog_ok m1" by (simp add: catalog_ok_iff)
  from run_ops_catalog_ok [OF this, of L ops w] m1(1) show ?thesis
    by (auto simp: catalog_ok_iff)
qed

theorem catalog_invariant_preserved_witness:
  "PicoManagerInit (Some blank_manager) (replicate 4 zero_entry) 4 = Some example_initial
   \<and> unat (4 :: DWORD) \<le> length (replicate 4 zero_entry)
   \<and> list_all is_Register example_ops
   \<and> (\<exists>rs m w'. run_ops example_libtcg example_ops example_initial example_world
                     = Some (rs, m, w')
          \<and> entryCount m \<le> entryCapacity m
          \<and> (\<forall>i<unat (entryCount m). pico_id (entries m ! i) = of_nat i)
          \<and> unat (entryCount m) = length (filter (\<lambda>r. r = TRUE) rs))"
proof -
  have a: "PicoManagerInit (Some blank_manager) (replicate 4 zero_entry) 4 = Some example_initial"
    by (simp add: example_initial_def PicoManagerInit_def)
  have b: "unat (4 :: DWORD) \<le> length (replicate 4 zero_entry)" by simp
  have c: "list_all is_Register example_ops" by (simp add: example_ops_def)
  from catalog_invariant_preserved [OF a b, of example_libtcg example_ops example_world] a b c
  show ?thesis by blast
qed
section \<open>Teardown\<close>

text \<open>
  Claim C9. \<open>DestroyManager\<close> returns \<open>TRUE\<close>, resets the base address, the block size,
  the used size and the count, and keeps the array of entries as it is. The only region it
  releases is the one whose address it is given: every other address, the data region and
  the vault of every entry among them, is reserved afterwards exactly when it was before.
\<close>

theorem DestroyManager_releases_only_block:
  "\<exists>m' w'. DestroyManager (Some m) picoBlock w = (TRUE, Some m', w')
     \<and> baseAddress m' = NULL \<and> blockSize m' = 0 \<and> usedSize m' = 0 \<and> entryCount m' = 0
     \<and> entries m' = entries m
     \<and> live w' = (if picoBlock = NULL then live w
                   else filter (\<lambda>r. fst r \<noteq> picoBlock) (live w))
     \<and> (\<forall>p. p \<noteq> picoBlock \<longrightarrow> is_live w' p = is_live w p)
     \<and> (\<forall>e\<in>set (entries m). data e \<noteq> picoBlock \<longrightarrow> is_live w' (data e) = is_live w (data e))
     \<and> (\<forall>e\<in>set (entries m). vault e \<noteq> picoBlock
            \<longrightarrow> is_live w' (vault e) = is_live w (vault e))"
proof -
  let ?w' = "if picoBlock \<noteq> NULL then VirtualFree w picoBlock else w"
  have keep: "is_live ?w' p = is_live w p" if "p \<noteq> picoBlock" for p
    using that by (force simp: VirtualFree_def is_live_def)
  have "live ?w' = (if picoBlock = NULL then live w
                    else filter (\<lambda>r. fst r \<noteq> picoBlock) (live w))"
    by (simp add: VirtualFree_def)
  with keep show ?thesis
    by (simp add: DestroyManager_def)
qed

theorem DestroyManager_releases_only_block_witness:
  "\<exists>m' w'. DestroyManager (Some example_loaded) 4096 example_loaded_world = (TRUE, Some m', w')
     \<and> baseAddress m' = NULL \<and> blockSize m' = 0 \<and> usedSize m' = 0 \<and> entryCount m' = 0
     \<and> data (entries m' ! 0) = 5000 \<and> vault (entries m' ! 0) = 1000
     \<and> is_live example_loaded_world 5000 \<and> is_live w' 5000
     \<and> is_live example_loaded_world 4096 \<and> \<not> is_live w' 4096"
proof -
  from DestroyManager_releases_only_block [of example_loaded 4096 example_loaded_world]
  obtain m' w' where
    r: "DestroyManager (Some example_loaded) 4096 example_loaded_world = (TRUE, Some m', w')"
      "baseAddress m' = NULL" "blockSize m' = 0" "usedSize m' = 0" "entryCount m' = 0"
      "entries m' = entries example_loaded"
      "live w' = (if (4096::ptr) = NULL then live example_loaded_world
                   else filter (\<lambda>r. fst r \<noteq> 4096) (live example_loaded_world))"
      "\<forall>p. p \<noteq> 4096 \<longrightarrow> is_live w' p = is_live example_loaded_world p"
    by blast
  from r(8) have "is_live w' 5000 = is_live example_loaded_world 5000" by simp
  moreover have "is_live example_loaded_world 5000" "is_live example_loaded_world 4096"
    by (simp_all add: is_live_def example_loaded_world_def)
  moreover from r(7) have "\<not> is_live w' 4096"
    by (simp add: is_live_def NULL_def example_loaded_world_def)
  moreover from r(6) have "data (entries m' ! 0) = 5000" "vault (entries m' ! 0) = 1000"
    by (simp_all add: example_loaded_def)
  ultimately show ?thesis using r(1-5) by simp
qed
section \<open>A duplication that fails partway\<close>

text \<open>
  Claim C10. When \<open>DuplicateManager\<close>, called with all its pointers present, returns
  \<open>FALSE\<close>, the value behind \<open>picoBlock\<close> is the one from before the call, and the new
  manager is left initialised: no base address, block size and used size 0, the capacity
  and the padding it was given, and at its first positions the entries that were
  registered before the failure, one for each of the first entries with a vault of the
  source, in their order. Nothing is undone and no region is reserved. Either a
  registration failed for lack of capacity: then the count has reached the capacity and
  is below the number of source entries with a vault; or the allocation of the region
  failed: then every source entry with a vault is registered.
\<close>

theorem DuplicateManager_failure_keeps_partial_catalog:
  assumes "DuplicateManager L (Some m) (Some nm) (Some es) cap (Some pb) w
             = Some (FALSE err, n', pb', w')"
  shows "pb' = Some pb
     \<and> (\<exists>n. n' = Some n \<and> baseAddress n = NULL \<and> blockSize n = 0 \<and> usedSize n = 0
           \<and> entryCapacity n = cap \<and> interPicoPadding n = interPicoPadding m
           \<and> length (entries n) = length es
           \<and> unat (entryCount n) \<le> length (live_entries m)
           \<and> (\<forall>j<unat (entryCount n). registered_from L (live_entries m ! j) j (entries n ! j))
           \<and> live w' = live w
           \<and> (err = CapacityExceeded \<and> cap \<le> entryCount n
                 \<and> unat (entryCount n) < length (live_entries m) \<and> w' = w
               \<or> err = AllocationFailed \<and> unat (entryCount n) = length (live_entries m)))"
proof -
  let ?n0 = "nm\<lparr>baseAddress := NULL, blockSize := 0, usedSize := 0, entries := es,
                 entryCount := 0, entryCapacity := cap, interPicoPadding := interPicoPadding m\<rparr>"
  from assms obtain r n1 where run: "dup_loop L m 0 ?n0 = Some (r, n1)"
    by (cases "dup_loop L m 0 ?n0") (auto simp: DuplicateManager_def PicoManagerInit_def)
  from dup_loop_result [OF run] obtain t where
    t: "unat (entryCount n1) = t" "t \<le> length (live_entries m)"
      "\<forall>j<t. registered_from L (live_entries m ! j) j (entries n1 ! j)"
      "length (entries n1) = length es"
      "entryCapacity n1 = cap" "baseAddress n1 = NULL" "blockSize n1 = 0" "usedSize n1 = 0"
      "interPicoPadding n1 = interPicoPadding m"
      "r = TRUE \<longrightarrow> t = length (live_entries m)"
      "\<forall>e. r = FALSE e \<longrightarrow> e = CapacityExceeded \<and> entryCapacity n1 \<le> entryCount n1
            \<and> t < length (live_entries m)"
    by (auto simp: live_entries_def)
  show ?thesis
  proof (cases r)
    case (FALSE e)
    with assms run have res: "err = e" "n' = Some n1" "pb' = Some pb" "w' = w"
      by (simp_all add: DuplicateManager_def PicoManagerInit_def)
    with t FALSE show ?thesis by simp
  next
    case TRUE
    with assms run obtain n2 w1 where
      al: "PicoManagerAlloc (Some n1) (ucast (entryCount m) * interPicoPadding m) w
             = Some (FALSE err, n2, w1)"
      and res: "n' = n2" "pb' = Some pb" "w' = w1"
      by (auto simp: DuplicateManager_def PicoManagerInit_def
          split: option.splits BOOL.splits)
    from PicoManagerAlloc_failed [OF al] res
    have f: "err = AllocationFailed" "n' = Some (n1\<lparr>baseAddress := NULL\<rparr>)" "live w' = live w"
      by simp_all
    with t TRUE res(2) show ?thesis
      by (intro conjI exI [of _ "n1\<lparr>baseAddress := NULL\<rparr>"]) simp_all
  qed
qed

theorem DuplicateManager_failure_keeps_partial_catalog_witness:
  "(\<exists>n. DuplicateManager example_libtcg (Some example_registered) (Some blank_manager)
          (Some (replicate 2 zero_entry)) 2 (Some 77) example_world
        = Some (FALSE CapacityExceeded, Some n, Some 77, example_world)
      \<and> baseAddress n = NULL \<and> blockSize n = 0 \<and> entryCapacity n = 2 \<and> 2 \<le> entryCount n
      \<and> unat (entryCount n) < length (live_entries example_registered))
   \<and> (\<exists>n. DuplicateManager example_libtcg (Some example_registered) (Some blank_manager)
          (Some (replicate 4 zero_entry)) 4 (Some 77) example_refusing_world
        = Some (FALSE AllocationFailed, Some n, Some 77, example_refusing_world)
      \<and> baseAddress n = NULL \<and> blockSize n = 0 \<and> entryCapacity n = 4
      \<and> unat (entryCount n) = length (live_entries example_registered))"
proof -
  from example_duplicate_small obtain n where
    a: "DuplicateManager example_libtcg (Some example_registered) (Some blank_manager)
          (Some (replicate 2 zero_entry)) 2 (Some 77) example_world
        = Some (FALSE CapacityExceeded, Some n, Some 77, example_world)" by blast
  from DuplicateManager_failure_keeps_partial_catalog [OF a]
  have a': "baseAddress n = NULL \<and> blockSize n = 0 \<and> entryCapacity n = 2 \<and> 2 \<le> entryCount n
      \<and> unat (entryCount n) < length (live_entries example_registered)"
    by simp
  from example_duplicate_refused obtain n2 where
    b: "DuplicateManager example_libtcg (Some example_registered) (Some blank_manager)
          (Some (replicate 4 zero_entry)) 4 (Some 77) example_refusing_world
        = Some (FALSE AllocationFailed, Some n2, Some 77, example_refusing_world)" by blast
  from DuplicateManager_failure_keeps_partial_catalog [OF b]
  have b': "baseAddress n2 = NULL \<and> blockSize n2 = 0 \<and> entryCapacity n2 = 4
      \<and> unat (entryCount n2) = length (live_entries example_registered)"
    by simp
  from a a' b b' show ?thesis by blast
qed

end
